theory Spec2Isabelle
  imports Main "HOL-Library.Word" "HOL-Library.Monad_Syntax"
begin

unbundle bit_operations_syntax

section \<open>Data model\<close>

text \<open>
  The Arduino type \<open>byte\<close> is an unsigned 8-bit integer.  The facade receives C++ \<open>int\<close>
  arguments; no arithmetic is done on them before they are cast to \<open>byte\<close>, so they are
  modelled as mathematical integers and the cast as \<open>word_of_int\<close> (reduction modulo 256).
\<close>

type_synonym byte = "8 word"

datatype level = LOW | HIGH

text \<open>
  A piece of printed text: a string literal, or a number printed in decimal
  (\<open>Serial.print(zone)\<close>, \<open>(String)zone\<close>).  A message is the list of its pieces in
  the order in which the source concatenates them.
\<close>

datatype piece = Txt string | Num int

text \<open>
  Everything the controller does to the outside world is an event; a run of a function is
  the list of the events it performs, in order.  \<open>Delay\<close> is \<open>delay\<close> (milliseconds),
  \<open>DelayMicroseconds\<close> is \<open>delayMicroseconds\<close>.
\<close>

datatype event =
    Serial_print "piece list"
  | Serial_println "piece list"
  | DigitalWrite nat level
  | Delay nat
  | DelayMicroseconds nat
  | Oled_updateAction "piece list"
  | Oled_updateHunterInfo int int int

text \<open>The macros of \<open>hunter_ctrl.h\<close> and \<open>hunter_ctrl.cpp\<close>. \<open>D0\<close> is GPIO 16.\<close>

definition HUNTER_PIN :: nat where
  "HUNTER_PIN = 16"

definition HUNTER_ONE :: level where
  "HUNTER_ONE = HIGH"

definition HUNTER_ZERO :: level where
  "HUNTER_ZERO = LOW"

definition START_INTERVAL :: nat where
  "START_INTERVAL = 900"

definition SHORT_INTERVAL :: nat where
  "SHORT_INTERVAL = 208"

definition LONG_INTERVAL :: nat where
  "LONG_INTERVAL = 1875"

text \<open>
  The compile-time switch \<open>USE_PUMP\<close> (the pump interlock of the external configuration)
  and the \<open>oled\<close> pointer of the class (\<open>True\<close> when it is not null).
\<close>

record HUNTER_CTRL =
  USE_PUMP :: bool
  oled :: bool

section \<open>Bit frame builder\<close>

text \<open>
  \<open>HunterBitfield\<close>: the loop runs while \<open>len > 0\<close>; in each round it sets or clears the
  bit \<open>0x80 >> (pos % 8)\<close> of byte \<open>pos / 8\<close> according to the lowest bit of \<open>val\<close>,
  then decrements \<open>len\<close>, shifts \<open>val\<close> right and increments \<open>pos\<close> (a \<open>byte\<close>, so
  255 is followed by 0).  Indexing the vector out of range is undefined behaviour in C++:
  the model returns \<open>None\<close> there.
\<close>

function HunterBitfield :: "byte list \<Rightarrow> byte \<Rightarrow> byte \<Rightarrow> byte \<Rightarrow> byte list option" where
  "HunterBitfield bits pos val len =
     (if len > 0 then
        (if unat pos div 8 < length bits then
           HunterBitfield
             (if val AND 0x1 \<noteq> 0
              then bits[unat pos div 8 := bits ! (unat pos div 8) OR drop_bit (unat pos mod 8) 0x80]
              else bits[unat pos div 8 := bits ! (unat pos div 8) AND NOT (drop_bit (unat pos mod 8) 0x80)])
             (pos + 1) (drop_bit 1 val) (len - 1)
         else None)
      else Some bits)"
  by pat_completeness auto
termination
  by (relation "measure (\<lambda>(bits, pos, val, len). unat len)")
     (auto simp: unat_minus_one word_greater_zero_iff unat_gt_0)

declare HunterBitfield.simps [simp del]

section \<open>Pulse encoder and bus transmitter\<close>

definition HunterLow :: "event list" where
  "HunterLow =
     [DigitalWrite HUNTER_PIN HUNTER_ONE, DelayMicroseconds SHORT_INTERVAL,
      DigitalWrite HUNTER_PIN HUNTER_ZERO, DelayMicroseconds LONG_INTERVAL]"

definition HunterHigh :: "event list" where
  "HunterHigh =
     [DigitalWrite HUNTER_PIN HUNTER_ONE, DelayMicroseconds LONG_INTERVAL,
      DigitalWrite HUNTER_PIN HUNTER_ZERO, DelayMicroseconds SHORT_INTERVAL]"

text \<open>
  The inner loop of \<open>HunterWrite\<close>, with the number of rounds still to run: test the top
  bit, emit the pulse, shift the byte left.
\<close>

fun HunterWrite_inner :: "nat \<Rightarrow> byte \<Rightarrow> event list" where
  "HunterWrite_inner 0 sendByte = []"
| "HunterWrite_inner (Suc n) sendByte =
     (if sendByte AND 0x80 \<noteq> 0 then HunterHigh else HunterLow)
       @ HunterWrite_inner n (push_bit 1 sendByte)"

text \<open>The outer loop, over the bytes of the buffer in order.\<close>

fun HunterWrite_bytes :: "byte list \<Rightarrow> event list" where
  "HunterWrite_bytes [] = []"
| "HunterWrite_bytes (sendByte # rest) = HunterWrite_inner 8 sendByte @ HunterWrite_bytes rest"

definition HunterWrite :: "byte list \<Rightarrow> bool \<Rightarrow> event list" where
  "HunterWrite buffer extrabit =
     [DigitalWrite HUNTER_PIN HUNTER_ONE, Delay 325,
      DigitalWrite HUNTER_PIN HUNTER_ZERO, Delay 65,
      DigitalWrite HUNTER_PIN HUNTER_ONE, DelayMicroseconds START_INTERVAL,
      DigitalWrite HUNTER_PIN HUNTER_ZERO, DelayMicroseconds SHORT_INTERVAL]
     @ HunterWrite_bytes buffer
     @ (if extrabit then HunterHigh else [])
     @ HunterLow"

section \<open>Command encoders\<close>

definition HunterStart_template :: "byte list" where
  "HunterStart_template =
     [0xff, 0x00, 0x00, 0x00, 0x10, 0x00, 0x00, 0x04, 0x00, 0x00, 0x01, 0x00, 0x01, 0xb8, 0x3f]"

text \<open>
  The field writes of \<open>HunterStart\<close>, in the order of the source.  The arithmetic
  \<open>zone + 0x17\<close>, \<open>zone - 1\<close>, \<open>time >> 4\<close> is done on \<open>int\<close> in C++ and converted to
  the \<open>byte\<close> parameter of \<open>HunterBitfield\<close>, which is the arithmetic of \<open>8 word\<close>.
\<close>

definition HunterStart_fields :: "byte \<Rightarrow> byte \<Rightarrow> byte list \<Rightarrow> byte list option" where
  "HunterStart_fields zone time buffer = do {
     buffer \<leftarrow> (if zone > 12 then HunterBitfield buffer 9 0x1 2
                else HunterBitfield buffer 9 0x2 2);
     buffer \<leftarrow> HunterBitfield buffer 23 (zone + 0x17) 7;
     buffer \<leftarrow> HunterBitfield buffer 36 (zone + 0x17) 7;
     buffer \<leftarrow> HunterBitfield buffer 49 (zone + 0x23) 7;
     buffer \<leftarrow> HunterBitfield buffer 62 (zone + 0x23) 7;
     buffer \<leftarrow> HunterBitfield buffer 75 (zone + 0x2f) 7;
     buffer \<leftarrow> HunterBitfield buffer 88 (zone + 0x2f) 7;
     buffer \<leftarrow> HunterBitfield buffer 31 time 4;
     buffer \<leftarrow> HunterBitfield buffer 44 (drop_bit 4 time) 4;
     buffer \<leftarrow> HunterBitfield buffer 57 time 4;
     buffer \<leftarrow> HunterBitfield buffer 70 (drop_bit 4 time) 4;
     buffer \<leftarrow> HunterBitfield buffer 83 time 4;
     buffer \<leftarrow> HunterBitfield buffer 96 (drop_bit 4 time) 4;
     HunterBitfield buffer 109 (zone - 1) 4
   }"

definition HunterStart_log :: "byte \<Rightarrow> byte \<Rightarrow> event list" where
  "HunterStart_log zone time =
     [Serial_print [Txt ''HunterStart zone ''], Serial_print [Num (uint zone)],
      Serial_print [Txt '' for ''], Serial_print [Num (uint time)],
      Serial_println [Txt '' min'']]"

text \<open>
  \<open>HunterStart\<close>: the events of a call, or \<open>None\<close> if a field write left the buffer.
  The checks are those of the source, \<open>time < 0\<close> included.
\<close>

definition HunterStart :: "byte \<Rightarrow> byte \<Rightarrow> event list option" where
  "HunterStart zone time =
     (let buffer = HunterStart_template in
      if zone < 1 \<or> zone > 48 then
        Some (HunterStart_log zone time @ [Serial_println [Txt ''invalid zone'']])
      else if time < 0 \<or> time > 240 then
        Some (HunterStart_log zone time @ [Serial_println [Txt ''invalid time'']])
      else do {
        buffer \<leftarrow> HunterStart_fields zone time buffer;
        Some (HunterStart_log zone time @ HunterWrite buffer True)
      })"

definition HunterStop :: "byte \<Rightarrow> event list option" where
  "HunterStop zone = do {
     events \<leftarrow> HunterStart zone 0;
     Some ([Serial_print [Txt ''HunterStop zone ''], Serial_print [Num (uint zone)],
            Serial_print [Txt '': '']] @ events)
   }"

definition HunterProgram_template :: "byte list" where
  "HunterProgram_template = [0xff, 0x40, 0x03, 0x96, 0x09, 0xbd, 0x7f]"

definition HunterProgram :: "byte \<Rightarrow> event list option" where
  "HunterProgram num =
     (let buffer = HunterProgram_template in
      if num < 1 \<or> num > 4 then
        Some [Serial_println [Txt ''invalid program'']]
      else do {
        buffer \<leftarrow> HunterBitfield buffer 31 (num - 1) 2;
        Some (HunterWrite buffer False)
      })"

section \<open>Controller facade\<close>

definition switchPump :: "HUNTER_CTRL \<Rightarrow> bool \<Rightarrow> event list" where
  "switchPump this onOff =
     (if USE_PUMP this = True then
        (if onOff then [Serial_println [Txt ''Set GPIO5 high.''], DigitalWrite 5 HIGH]
         else [Serial_println [Txt ''Set GPIO5 low.''], DigitalWrite 5 LOW])
      else [])"

text \<open>
  The facade methods.  The serial line, the display report and the pump switch come
  first, in this order; the events of the call to \<open>HunterStart\<close> or
  \<open>HunterProgram\<close> on the arguments cast to \<open>byte\<close> come last.
\<close>

definition startZone :: "HUNTER_CTRL \<Rightarrow> int \<Rightarrow> int \<Rightarrow> event list option" where
  "startZone this zone time =
     (let msg = [Txt ''Watering zone '', Num zone, Txt '' -> '', Num time, Txt '' min''] in
      do {
        events \<leftarrow> HunterStart (word_of_int zone) (word_of_int time);
        Some ([Serial_println msg]
              @ (if oled this then [Oled_updateAction msg, Oled_updateHunterInfo zone time 0] else [])
              @ (if time \<noteq> 0 then switchPump this True else switchPump this False)
              @ events)
      })"

definition startProgram :: "HUNTER_CTRL \<Rightarrow> int \<Rightarrow> event list option" where
  "startProgram this programID =
     (let msg = [Txt ''Watering prog '', Num programID, Txt '' ...''] in
      do {
        events \<leftarrow> HunterProgram (word_of_int programID);
        Some ([Serial_println msg]
              @ (if oled this then [Oled_updateAction msg, Oled_updateHunterInfo 0 0 programID] else [])
              @ events)
      })"

section \<open>Observations on frames\<close>

text \<open>
  Bit \<open>k\<close> of a frame, numbered from the most significant bit of the first byte: the bit
  that \<open>0x80 >> (k % 8)\<close> selects in byte \<open>k / 8\<close>, and the \<open>k\<close>-th bit that the
  transmitter sends.
\<close>

definition frame_bit :: "byte list \<Rightarrow> nat \<Rightarrow> bool" where
  "frame_bit bits k = bit (bits ! (k div 8)) (7 - k mod 8)"

text \<open>
  Reading a field back: the inverse of \<open>HunterBitfield\<close>, which puts the least
  significant bit of the value at offset \<open>pos\<close> and each higher bit one offset later.
\<close>

fun decodeField :: "byte list \<Rightarrow> nat \<Rightarrow> nat \<Rightarrow> nat" where
  "decodeField bits pos 0 = 0"
| "decodeField bits pos (Suc n) =
     (if frame_bit bits pos then 1 else 0) + 2 * decodeField bits (Suc pos) n"

text \<open>
  The bit layout of a zone frame, offset by offset: the fields that \<open>HunterStart\<close>
  writes, and the template everywhere else.  The fields are listed from the last write
  to the first; no two of them overlap.
\<close>

definition HunterStart_layout :: "byte \<Rightarrow> byte \<Rightarrow> nat \<Rightarrow> bool" where
  "HunterStart_layout zone time k =
     (if 109 \<le> k \<and> k < 113 then bit (zone - 1) (k - 109)
      else if 96 \<le> k \<and> k < 100 then bit (drop_bit 4 time) (k - 96)
      else if 83 \<le> k \<and> k < 87 then bit time (k - 83)
      else if 70 \<le> k \<and> k < 74 then bit (drop_bit 4 time) (k - 70)
      else if 57 \<le> k \<and> k < 61 then bit time (k - 57)
      else if 44 \<le> k \<and> k < 48 then bit (drop_bit 4 time) (k - 44)
      else if 31 \<le> k \<and> k < 35 then bit time (k - 31)
      else if 88 \<le> k \<and> k < 95 then bit (zone + 0x2f) (k - 88)
      else if 75 \<le> k \<and> k < 82 then bit (zone + 0x2f) (k - 75)
      else if 62 \<le> k \<and> k < 69 then bit (zone + 0x23) (k - 62)
      else if 49 \<le> k \<and> k < 56 then bit (zone + 0x23) (k - 49)
      else if 36 \<le> k \<and> k < 43 then bit (zone + 0x17) (k - 36)
      else if 23 \<le> k \<and> k < 30 then bit (zone + 0x17) (k - 23)
      else if 9 \<le> k \<and> k < 11 then bit (if zone > 12 then 0x1 else 0x2 :: byte) (k - 9)
      else frame_bit HunterStart_template k)"

text \<open>The offsets that belong to one of the fields of a zone frame.\<close>

definition in_zone_field :: "nat \<Rightarrow> bool" where
  "in_zone_field k \<longleftrightarrow>
     (9 \<le> k \<and> k < 11) \<or> (23 \<le> k \<and> k < 30) \<or> (36 \<le> k \<and> k < 43) \<or>
     (49 \<le> k \<and> k < 56) \<or> (62 \<le> k \<and> k < 69) \<or> (75 \<le> k \<and> k < 82) \<or>
     (88 \<le> k \<and> k < 95) \<or> (31 \<le> k \<and> k < 35) \<or> (44 \<le> k \<and> k < 48) \<or>
     (57 \<le> k \<and> k < 61) \<or> (70 \<le> k \<and> k < 74) \<or> (83 \<le> k \<and> k < 87) \<or>
     (96 \<le> k \<and> k < 100) \<or> (109 \<le> k \<and> k < 113)"

text \<open>
  The bus is write-only and the repository has no decoder.  This one follows the
  specification's documented offsets: the zone from the field at 23, the duration from
  the nibbles at 31 and 44; the fields at 9, 49, 75 and 109 must agree with the zone.
\<close>

definition decodeZoneFrame :: "byte list \<Rightarrow> (nat \<times> nat) option" where
  "decodeZoneFrame f =
     (let group = decodeField f 9 2;
          z1 = decodeField f 23 7; z2 = decodeField f 49 7; z3 = decodeField f 75 7;
          lo = decodeField f 31 4; hi = decodeField f 44 4;
          z0 = decodeField f 109 4;
          zone = z1 - 0x17; time = 16 * hi + lo
      in if 0x17 \<le> z1 \<and> z2 = zone + 0x23 \<and> z3 = zone + 0x2F \<and>
            z0 = (zone - 1) mod 16 \<and> group = (if zone > 12 then 1 else 2)
         then Some (zone, time) else None)"

section \<open>The wire protocol as the specification words it\<close>

text \<open>Driving the line to a level for a number of milliseconds or microseconds.\<close>

definition drive_ms :: "level \<Rightarrow> nat \<Rightarrow> event list" where
  "drive_ms l n = [DigitalWrite 16 l, Delay n]"

definition drive_us :: "level \<Rightarrow> nat \<Rightarrow> event list" where
  "drive_us l n = [DigitalWrite 16 l, DelayMicroseconds n]"

definition pulse :: "bool \<Rightarrow> event list" where
  "pulse b = (if b then drive_us HIGH 1875 @ drive_us LOW 208
              else drive_us HIGH 208 @ drive_us LOW 1875)"

definition byte_bits :: "byte \<Rightarrow> bool list" where
  "byte_bits b = [bit b 7, bit b 6, bit b 5, bit b 4, bit b 3, bit b 2, bit b 1, bit b 0]"

definition frame_bits :: "byte list \<Rightarrow> bool list" where
  "frame_bits buffer = concat (map byte_bits buffer)"

definition pulses :: "bool list \<Rightarrow> event list" where
  "pulses bs = concat (map pulse bs)"

definition bus_prologue :: "event list" where
  "bus_prologue = drive_ms HIGH 325 @ drive_ms LOW 65 @ drive_us HIGH 900 @ drive_us LOW 208"

definition transmission_waveform :: "byte list \<Rightarrow> bool \<Rightarrow> event list" where
  "transmission_waveform buffer extrabit =
     bus_prologue @ pulses (frame_bits buffer) @ (if extrabit then pulse True else [])
       @ pulse False"

section \<open>Observations on event lists\<close>

fun is_bus_event :: "event \<Rightarrow> bool" where
  "is_bus_event (DigitalWrite p l) = (p = HUNTER_PIN)"
| "is_bus_event (Delay n) = True"
| "is_bus_event (DelayMicroseconds n) = True"
| "is_bus_event _ = False"

fun is_display_event :: "event \<Rightarrow> bool" where
  "is_display_event (Oled_updateAction m) = True"
| "is_display_event (Oled_updateHunterInfo z t p) = True"
| "is_display_event _ = False"

fun is_pump_event :: "event \<Rightarrow> bool" where
  "is_pump_event (DigitalWrite p l) = (p = 5)"
| "is_pump_event _ = False"

definition bus_events :: "event list \<Rightarrow> event list" where
  "bus_events es = filter is_bus_event es"

text \<open>A call transmits when it returns and has driven the bus.\<close>

definition transmits :: "event list option \<Rightarrow> bool" where
  "transmits r = (case r of None \<Rightarrow> False | Some es \<Rightarrow> list_ex is_bus_event es)"

text \<open>Some display report comes before some bus event.\<close>

fun display_precedes_bus :: "event list \<Rightarrow> bool" where
  "display_precedes_bus [] = False"
| "display_precedes_bus (e # es) =
     ((is_display_event e \<and> list_ex is_bus_event es) \<or> display_precedes_bus es)"

section \<open>Properties of the bit frame builder\<close>

lemma bit_0x80: "bit (0x80 :: byte) k \<longleftrightarrow> k = 7"
proof -
  have "(0x80 :: byte) = 2 ^ 7" by simp
  then show ?thesis by (simp only: bit_exp_iff) (auto simp: possible_bit_word)
qed

lemma bit_mask80: "bit (drop_bit m (0x80 :: byte)) n \<longleftrightarrow> m + n = 7"
proof -
  have "bit (drop_bit m (0x80 :: byte)) n = bit (0x80 :: byte) (m + n)"
    by (simp only: bit_drop_bit_eq comp_def)
  then show ?thesis by (simp only: bit_0x80)
qed

lemma and_0x1_iff: "(v :: byte) AND 0x1 \<noteq> 0 \<longleftrightarrow> bit v 0"
  by (simp add: and_one_eq bit_0 mod_2_eq_odd)

lemma pos_split:
  assumes "k div 8 = p div 8"
  shows "(k = p) \<longleftrightarrow> (p mod 8 + (7 - k mod 8) = (7::nat))"
proof -
  have "k mod 8 < 8" "p mod 8 < 8" by simp_all
  then have "(p mod 8 + (7 - k mod 8) = 7) \<longleftrightarrow> k mod 8 = p mod 8" by arith
  also have "\<dots> \<longleftrightarrow> k = p" using assms by (metis div_mult_mod_eq)
  finally show ?thesis by simp
qed

lemma frame_bit_set:
  assumes "p div 8 < length bits"
  shows "frame_bit (bits[p div 8 := bits ! (p div 8) OR drop_bit (p mod 8) 0x80]) k
         = (if k = p then True else frame_bit bits k)"
proof (cases "k div 8 = p div 8")
  case False
  then show ?thesis by (auto simp: frame_bit_def)
next
  case True
  then show ?thesis
    using assms pos_split [OF True] by (simp add: frame_bit_def bit_or_iff bit_mask80)
qed

lemma frame_bit_clear:
  assumes "p div 8 < length bits"
  shows "frame_bit (bits[p div 8 := bits ! (p div 8) AND NOT (drop_bit (p mod 8) 0x80)]) k
         = (if k = p then False else frame_bit bits k)"
proof (cases "k div 8 = p div 8")
  case False
  then show ?thesis by (auto simp: frame_bit_def)
next
  case True
  then show ?thesis
    using assms pos_split [OF True]
    by (auto simp add: frame_bit_def bit_and_iff bit_not_iff bit_mask80)
qed

text \<open>
  The effect of \<open>HunterBitfield\<close> on the bits of the buffer, as long as the position
  counter does not wrap and the field lies inside the buffer: no out-of-range access, the
  length is kept, offset \<open>pos + i\<close> receives bit \<open>i\<close> of the value, every other bit
  stays.
\<close>

lemma HunterBitfield_bits:
  "unat pos + unat len \<le> 256 \<Longrightarrow> unat pos + unat len \<le> 8 * length bits \<Longrightarrow>
   \<exists>bits'. HunterBitfield bits pos val len = Some bits' \<and> length bits' = length bits \<and>
     (\<forall>k. frame_bit bits' k =
        (if unat pos \<le> k \<and> k < unat pos + unat len then bit val (k - unat pos)
         else frame_bit bits k))"
proof (induction bits pos val len rule: HunterBitfield.induct)
  case (1 bits pos val len)
  show ?case
  proof (cases "len > 0")
    case False
    then have "len = 0" by (simp add: word_greater_zero_iff)
    then show ?thesis by (auto simp add: HunterBitfield.simps)
  next
    case True
    then have len_pos: "0 < unat len" by (simp add: unat_gt_0 word_greater_zero_iff)
    have ulen: "unat (len - 1) = unat len - 1"
      using True by (simp add: unat_minus_one word_greater_zero_iff)
    have inb: "unat pos div 8 < length bits"
      using "1.prems" len_pos by linarith
    have pos_lt: "unat pos < 255 \<or> unat len = 1"
      using "1.prems"(1) len_pos by linarith
    define bits1 where "bits1 =
      (if val AND 0x1 \<noteq> 0
       then bits[unat pos div 8 := bits ! (unat pos div 8) OR drop_bit (unat pos mod 8) 0x80]
       else bits[unat pos div 8 := bits ! (unat pos div 8) AND NOT (drop_bit (unat pos mod 8) 0x80)])"
    have step: "HunterBitfield bits pos val len
                = HunterBitfield bits1 (pos + 1) (drop_bit 1 val) (len - 1)"
      using True inb unfolding bits1_def by (subst HunterBitfield.simps) simp
    have len1: "length bits1 = length bits"
      by (simp add: bits1_def)
    have fb1: "frame_bit bits1 k = (if k = unat pos then bit val 0 else frame_bit bits k)" for k
      using inb by (simp add: bits1_def frame_bit_set frame_bit_clear and_0x1_iff)
    have shift: "bit (drop_bit 1 val) n = bit val (Suc n)" for n
      by (simp add: bit_drop_bit_eq)
    have pre1: "unat (pos + 1) + unat (len - 1) \<le> 256"
    proof (cases "unat len = 1")
      case True
      have "unat (pos + 1) < 2 ^ LENGTH(8)" by (rule unsigned_less)
      then show ?thesis using True ulen by simp
    next
      case False
      then have "unat pos < 255" using pos_lt by simp
      then have "unat (pos + 1) = unat pos + 1" by (simp add: unat_word_ariths)
      then show ?thesis using "1.prems"(1) ulen len_pos by simp
    qed
    have pre2: "unat (pos + 1) + unat (len - 1) \<le> 8 * length bits1"
    proof (cases "unat len = 1")
      case True
      have "unat (pos + 1) \<le> Suc (unat pos)" by (simp add: unat_word_ariths)
      then show ?thesis using True ulen "1.prems"(2) len1 by simp
    next
      case False
      then have "unat pos < 255" using pos_lt by simp
      then have "unat (pos + 1) = unat pos + 1" by (simp add: unat_word_ariths)
      then show ?thesis using "1.prems"(2) ulen len_pos len1 by simp
    qed
    from "1.IH" [OF True inb] pre1 pre2 obtain bits' where
      res: "HunterBitfield bits1 (pos + 1) (drop_bit 1 val) (len - 1) = Some bits'"
      and len': "length bits' = length bits1"
      and fb': "\<And>k. frame_bit bits' k =
                 (if unat (pos + 1) \<le> k \<and> k < unat (pos + 1) + unat (len - 1)
                  then bit (drop_bit 1 val) (k - unat (pos + 1)) else frame_bit bits1 k)"
      unfolding bits1_def by blast
    have "frame_bit bits' k =
            (if unat pos \<le> k \<and> k < unat pos + unat len then bit val (k - unat pos)
             else frame_bit bits k)" for k
    proof (cases "unat len = 1")
      case True
      then show ?thesis using fb' [of k] fb1 [of k] ulen by auto
    next
      case False
      then have "unat pos < 255" using pos_lt by simp
      then have up: "unat (pos + 1) = unat pos + 1"
        by (simp add: unat_word_ariths)
      show ?thesis
        using fb' [of k] fb1 [of k] ulen len_pos up shift [of "k - unat pos - 1"]
        by (auto simp: Suc_diff_Suc)
    qed
    then show ?thesis using step res len' len1 by simp
  qed
qed

lemma decodeField_nat:
  "(\<And>k. pos \<le> k \<Longrightarrow> k < pos + n \<Longrightarrow> frame_bit bits k = bit v (k - pos))
   \<Longrightarrow> decodeField bits pos n = take_bit n (v :: nat)"
proof (induction n arbitrary: pos v)
  case 0
  then show ?case by simp
next
  case (Suc n)
  have b0: "frame_bit bits pos = odd v"
    using Suc.prems [of pos] by (simp add: bit_0)
  have "decodeField bits (Suc pos) n = take_bit n (v div 2)"
  proof (rule Suc.IH)
    fix k assume "Suc pos \<le> k" "k < Suc pos + n"
    then have "frame_bit bits k = bit v (k - pos)" using Suc.prems [of k] by simp
    also have "k - pos = Suc (k - Suc pos)" using \<open>Suc pos \<le> k\<close> by simp
    finally show "frame_bit bits k = bit (v div 2) (k - Suc pos)"
      by (simp add: bit_Suc)
  qed
  then show ?case using b0 by (simp add: take_bit_Suc mod_2_eq_odd)
qed

lemma decodeField_word:
  assumes "\<And>k. pos \<le> k \<Longrightarrow> k < pos + n \<Longrightarrow> frame_bit bits k = bit (val :: byte) (k - pos)"
  shows "decodeField bits pos n = unat val mod 2 ^ n"
proof -
  have "decodeField bits pos n = take_bit n (unat val)"
    by (rule decodeField_nat) (simp add: assms bit_unsigned_iff)
  then show ?thesis by (simp add: take_bit_eq_mod)
qed

section \<open>Properties of the zone frame\<close>

lemma HunterBitfield_frame15:
  assumes "length bits = 15" and "\<And>k. frame_bit bits k = g k"
    and "unat pos + unat len \<le> 120"
  obtains bits' where "HunterBitfield bits pos val len = Some bits'" and "length bits' = 15"
    and "\<And>k. frame_bit bits' k =
           (if unat pos \<le> k \<and> k < unat pos + unat len then bit val (k - unat pos) else g k)"
  using HunterBitfield_bits [of pos len bits val] assms by auto

lemma HunterStart_fields_bits:
  "\<exists>f. HunterStart_fields zone time HunterStart_template = Some f \<and> length f = 15 \<and>
        (\<forall>k. frame_bit f k = HunterStart_layout zone time k)"
proof -
  have l0: "length HunterStart_template = 15"
    by (simp add: HunterStart_template_def)
  obtain b1 where w1: "HunterBitfield HunterStart_template 9 (if zone > 12 then 0x1 else 0x2) 2 = Some b1"
    and l1: "length b1 = 15"
    and f1: "\<And>k. frame_bit b1 k =
               (if 9 \<le> k \<and> k < 11 then bit (if zone > 12 then 0x1 else 0x2 :: byte) (k - 9)
                else frame_bit HunterStart_template k)"
    by (rule HunterBitfield_frame15 [OF l0 refl, of 9 2 "if zone > 12 then 0x1 else 0x2"]) simp_all
  obtain b2 where w2: "HunterBitfield b1 23 (zone + 0x17) 7 = Some b2"
    and l2: "length b2 = 15"
    and f2: "\<And>k. frame_bit b2 k =
               (if 23 \<le> k \<and> k < 30 then bit (zone + 0x17) (k - 23) else frame_bit b1 k)"
    by (rule HunterBitfield_frame15 [OF l1 refl, of 23 7 "zone + 0x17"]) simp_all
  obtain b3 where w3: "HunterBitfield b2 36 (zone + 0x17) 7 = Some b3"
    and l3: "length b3 = 15"
    and f3: "\<And>k. frame_bit b3 k =
               (if 36 \<le> k \<and> k < 43 then bit (zone + 0x17) (k - 36) else frame_bit b2 k)"
    by (rule HunterBitfield_frame15 [OF l2 refl, of 36 7 "zone + 0x17"]) simp_all
  obtain b4 where w4: "HunterBitfield b3 49 (zone + 0x23) 7 = Some b4"
    and l4: "length b4 = 15"
    and f4: "\<And>k. frame_bit b4 k =
               (if 49 \<le> k \<and> k < 56 then bit (zone + 0x23) (k - 49) else frame_bit b3 k)"
    by (rule HunterBitfield_frame15 [OF l3 refl, of 49 7 "zone + 0x23"]) simp_all
  obtain b5 where w5: "HunterBitfield b4 62 (zone + 0x23) 7 = Some b5"
    and l5: "length b5 = 15"
    and f5: "\<And>k. frame_bit b5 k =
               (if 62 \<le> k \<and> k < 69 then bit (zone + 0x23) (k - 62) else frame_bit b4 k)"
    by (rule HunterBitfield_frame15 [OF l4 refl, of 62 7 "zone + 0x23"]) simp_all
  obtain b6 where w6: "HunterBitfield b5 75 (zone + 0x2f) 7 = Some b6"
    and l6: "length b6 = 15"
    and f6: "\<And>k. frame_bit b6 k =
               (if 75 \<le> k \<and> k < 82 then bit (zone + 0x2f) (k - 75) else frame_bit b5 k)"
    by (rule HunterBitfield_frame15 [OF l5 refl, of 75 7 "zone + 0x2f"]) simp_all
  obtain b7 where w7: "HunterBitfield b6 88 (zone + 0x2f) 7 = Some b7"
    and l7: "length b7 = 15"
    and f7: "\<And>k. frame_bit b7 k =
               (if 88 \<le> k \<and> k < 95 then bit (zone + 0x2f) (k - 88) else frame_bit b6 k)"
    by (rule HunterBitfield_frame15 [OF l6 refl, of 88 7 "zone + 0x2f"]) simp_all
  obtain b8 where w8: "HunterBitfield b7 31 (time) 4 = Some b8"
    and l8: "length b8 = 15"
    and f8: "\<And>k. frame_bit b8 k =
               (if 31 \<le> k \<and> k < 35 then bit (time) (k - 31) else frame_bit b7 k)"
    by (rule HunterBitfield_frame15 [OF l7 refl, of 31 4 "time"]) simp_all
  obtain b9 where w9: "HunterBitfield b8 44 (drop_bit 4 time) 4 = Some b9"
    and l9: "length b9 = 15"
    and f9: "\<And>k. frame_bit b9 k =
               (if 44 \<le> k \<and> k < 48 then bit (drop_bit 4 time) (k - 44) else frame_bit b8 k)"
    by (rule HunterBitfield_frame15 [OF l8 refl, of 44 4 "drop_bit 4 time"]) simp_all
  obtain b10 where w10: "HunterBitfield b9 57 (time) 4 = Some b10"
    and l10: "length b10 = 15"
    and f10: "\<And>k. frame_bit b10 k =
               (if 57 \<le> k \<and> k < 61 then bit (time) (k - 57) else frame_bit b9 k)"
    by (rule HunterBitfield_frame15 [OF l9 refl, of 57 4 "time"]) simp_all
  obtain b11 where w11: "HunterBitfield b10 70 (drop_bit 4 time) 4 = Some b11"
    and l11: "length b11 = 15"
    and f11: "\<And>k. frame_bit b11 k =
               (if 70 \<le> k \<and> k < 74 then bit (drop_bit 4 time) (k - 70) else frame_bit b10 k)"
    by (rule HunterBitfield_frame15 [OF l10 refl, of 70 4 "drop_bit 4 time"]) simp_all
  obtain b12 where w12: "HunterBitfield b11 83 (time) 4 = Some b12"
    and l12: "length b12 = 15"
    and f12: "\<And>k. frame_bit b12 k =
               (if 83 \<le> k \<and> k < 87 then bit (time) (k - 83) else frame_bit b11 k)"
    by (rule HunterBitfield_frame15 [OF l11 refl, of 83 4 "time"]) simp_all
  obtain b13 where w13: "HunterBitfield b12 96 (drop_bit 4 time) 4 = Some b13"
    and l13: "length b13 = 15"
    and f13: "\<And>k. frame_bit b13 k =
               (if 96 \<le> k \<and> k < 100 then bit (drop_bit 4 time) (k - 96) else frame_bit b12 k)"
    by (rule HunterBitfield_frame15 [OF l12 refl, of 96 4 "drop_bit 4 time"]) simp_all
  obtain b14 where w14: "HunterBitfield b13 109 (zone - 1) 4 = Some b14"
    and l14: "length b14 = 15"
    and f14: "\<And>k. frame_bit b14 k =
               (if 109 \<le> k \<and> k < 113 then bit (zone - 1) (k - 109) else frame_bit b13 k)"
    by (rule HunterBitfield_frame15 [OF l13 refl, of 109 4 "zone - 1"]) simp_all
  have w1': "(if zone > 12 then HunterBitfield HunterStart_template 9 0x1 2
              else HunterBitfield HunterStart_template 9 0x2 2) = Some b1"
    using w1 by (simp split: if_splits)
  have res: "HunterStart_fields zone time HunterStart_template = Some b14"
    unfolding HunterStart_fields_def
    by (simp only: w1' w2 w3 w4 w5 w6 w7 w8 w9 w10 w11 w12 w13 w14 bind.bind_lunit)
  have "frame_bit b14 k = HunterStart_layout zone time k" for k
    unfolding HunterStart_layout_def
    by (simp only: f1 f2 f3 f4 f5 f6 f7 f8 f9 f10 f11 f12 f13 f14)
  with res l14 show ?thesis by blast
qed


lemma HunterStart_layout_fields:
  "9 \<le> k \<Longrightarrow> k < 9 + 2 \<Longrightarrow> HunterStart_layout zone time k = bit (if zone > 12 then 0x1 else 0x2 :: byte) (k - 9)"
  "23 \<le> k \<Longrightarrow> k < 23 + 7 \<Longrightarrow> HunterStart_layout zone time k = bit (zone + 0x17) (k - 23)"
  "36 \<le> k \<Longrightarrow> k < 36 + 7 \<Longrightarrow> HunterStart_layout zone time k = bit (zone + 0x17) (k - 36)"
  "49 \<le> k \<Longrightarrow> k < 49 + 7 \<Longrightarrow> HunterStart_layout zone time k = bit (zone + 0x23) (k - 49)"
  "62 \<le> k \<Longrightarrow> k < 62 + 7 \<Longrightarrow> HunterStart_layout zone time k = bit (zone + 0x23) (k - 62)"
  "75 \<le> k \<Longrightarrow> k < 75 + 7 \<Longrightarrow> HunterStart_layout zone time k = bit (zone + 0x2f) (k - 75)"
  "88 \<le> k \<Longrightarrow> k < 88 + 7 \<Longrightarrow> HunterStart_layout zone time k = bit (zone + 0x2f) (k - 88)"
  "31 \<le> k \<Longrightarrow> k < 31 + 4 \<Longrightarrow> HunterStart_layout zone time k = bit time (k - 31)"
  "44 \<le> k \<Longrightarrow> k < 44 + 4 \<Longrightarrow> HunterStart_layout zone time k = bit (drop_bit 4 time) (k - 44)"
  "57 \<le> k \<Longrightarrow> k < 57 + 4 \<Longrightarrow> HunterStart_layout zone time k = bit time (k - 57)"
  "70 \<le> k \<Longrightarrow> k < 70 + 4 \<Longrightarrow> HunterStart_layout zone time k = bit (drop_bit 4 time) (k - 70)"
  "83 \<le> k \<Longrightarrow> k < 83 + 4 \<Longrightarrow> HunterStart_layout zone time k = bit time (k - 83)"
  "96 \<le> k \<Longrightarrow> k < 96 + 4 \<Longrightarrow> HunterStart_layout zone time k = bit (drop_bit 4 time) (k - 96)"
  "109 \<le> k \<Longrightarrow> k < 109 + 4 \<Longrightarrow> HunterStart_layout zone time k = bit (zone - 1) (k - 109)"
  by (simp_all add: HunterStart_layout_def)

lemma HunterStart_layout_rest:
  "\<not> in_zone_field k \<Longrightarrow> HunterStart_layout zone time k = frame_bit HunterStart_template k"
  unfolding in_zone_field_def HunterStart_layout_def by (simp only: de_Morgan_disj if_False)

lemma decode_layout:
  assumes f: "\<And>k. frame_bit f k = HunterStart_layout zone time k"
  shows "decodeField f 9 2 = unat (if zone > 12 then 0x1 else 0x2 :: byte) mod 2 ^ 2"
    and "decodeField f 23 7 = unat (zone + 0x17) mod 2 ^ 7"
    and "decodeField f 36 7 = unat (zone + 0x17) mod 2 ^ 7"
    and "decodeField f 49 7 = unat (zone + 0x23) mod 2 ^ 7"
    and "decodeField f 62 7 = unat (zone + 0x23) mod 2 ^ 7"
    and "decodeField f 75 7 = unat (zone + 0x2f) mod 2 ^ 7"
    and "decodeField f 88 7 = unat (zone + 0x2f) mod 2 ^ 7"
    and "decodeField f 31 4 = unat time mod 2 ^ 4"
    and "decodeField f 44 4 = unat (drop_bit 4 time) mod 2 ^ 4"
    and "decodeField f 57 4 = unat time mod 2 ^ 4"
    and "decodeField f 70 4 = unat (drop_bit 4 time) mod 2 ^ 4"
    and "decodeField f 83 4 = unat time mod 2 ^ 4"
    and "decodeField f 96 4 = unat (drop_bit 4 time) mod 2 ^ 4"
    and "decodeField f 109 4 = unat (zone - 1) mod 2 ^ 4"
  by (rule decodeField_word, simp only: f HunterStart_layout_fields)+

lemma valid_zone_values:
  assumes "1 \<le> zone" "zone \<le> (48 :: byte)"
  shows "unat (zone + 0x17) = unat zone + 0x17" "unat (zone + 0x23) = unat zone + 0x23"
    "unat (zone + 0x2f) = unat zone + 0x2f" "unat (zone - 1) = unat zone - 1"
    "1 \<le> unat zone" "unat zone \<le> 48" "(zone > 12) = (unat zone > 12)"
proof -
  show a: "1 \<le> unat zone" "unat zone \<le> 48"
    using assms by (simp_all add: word_le_nat_alt)
  then show "unat (zone + 0x17) = unat zone + 0x17" "unat (zone + 0x23) = unat zone + 0x23"
    "unat (zone + 0x2f) = unat zone + 0x2f"
    by (simp_all add: unat_word_ariths)
  show "unat (zone - 1) = unat zone - 1"
    using a by (simp add: unat_minus_one unat_eq_zero [symmetric])
  show "(zone > 12) = (unat zone > 12)" by (simp add: word_less_nat_alt)
qed

lemma time_nibbles:
  "unat (drop_bit 4 (time :: byte)) mod 2 ^ 4 = unat time div 16"
proof -
  have "unat time < 256" using unsigned_less [of time] by simp
  then have "unat time div 16 < 16" by simp
  moreover have "unat (drop_bit 4 time) = unat time div 16"
    by (simp add: drop_bit_eq_div unat_div)
  ultimately show ?thesis by simp
qed

lemma HunterStart_accepted:
  assumes "1 \<le> zone" "zone \<le> 48" "time \<le> 240"
  shows "\<exists>f. HunterStart_fields zone time HunterStart_template = Some f \<and>
             HunterStart zone time = Some (HunterStart_log zone time @ HunterWrite f True) \<and>
             length f = 15 \<and> (\<forall>k. frame_bit f k = HunterStart_layout zone time k)"
proof -
  obtain f where f: "HunterStart_fields zone time HunterStart_template = Some f"
    "length f = 15" "\<forall>k. frame_bit f k = HunterStart_layout zone time k"
    using HunterStart_fields_bits [of zone time] by blast
  have "\<not> (zone < 1 \<or> zone > 48)" "\<not> (time < 0 \<or> time > 240)"
    using assms by (auto simp: not_less)
  then have "HunterStart zone time = Some (HunterStart_log zone time @ HunterWrite f True)"
    unfolding HunterStart_def Let_def by (simp only: f(1) if_False bind.bind_lunit)
  with f show ?thesis by blast
qed

lemma HunterStart_fields_13_30:
  "HunterStart_fields 13 30 HunterStart_template
   = Some [0xff, 0x40, 0x00, 0x48, 0xf2, 0x48, 0x06, 0x3c, 0x32, 0x07, 0x8f, 0x3c, 0x81, 0xb9, 0xbf]"
  by (simp add: HunterStart_fields_def HunterStart_template_def HunterBitfield.simps)

section \<open>Properties of the transmitter\<close>

lemma and_0x80_iff: "(b :: byte) AND 0x80 \<noteq> 0 \<longleftrightarrow> bit b 7"
proof -
  have "(0x80 :: byte) = 2 ^ 7" by simp
  then show ?thesis by (simp only: and_exp_eq_0_iff_not_bit) simp
qed

lemma HunterHigh_pulse: "HunterHigh = pulse True"
  by (simp add: HunterHigh_def pulse_def drive_us_def HUNTER_PIN_def HUNTER_ONE_def
      HUNTER_ZERO_def LONG_INTERVAL_def SHORT_INTERVAL_def)

lemma HunterLow_pulse: "HunterLow = pulse False"
  by (simp add: HunterLow_def pulse_def drive_us_def HUNTER_PIN_def HUNTER_ONE_def
      HUNTER_ZERO_def LONG_INTERVAL_def SHORT_INTERVAL_def)

lemma HunterWrite_inner_step:
  "HunterWrite_inner (Suc n) b = pulse (bit b 7) @ HunterWrite_inner n (push_bit 1 b)"
  by (simp add: and_0x80_iff HunterHigh_pulse HunterLow_pulse del: push_bit_of_Suc_0)

lemma bit_push_1: "i < 7 \<Longrightarrow> bit (push_bit 1 (b :: byte)) (7 - i) = bit b (7 - Suc i)"
proof -
  assume "i < 7"
  have "bit (push_bit 1 b) (7 - i)
        \<longleftrightarrow> 1 \<le> 7 - i \<and> possible_bit TYPE(byte) (7 - i - 1 + 1) \<and> bit b (7 - i - 1)"
    using \<open>i < 7\<close> by (simp only: bit_push_bit_iff) auto
  also have "\<dots> \<longleftrightarrow> bit b (7 - Suc i)"
    using \<open>i < 7\<close> by (auto simp add: possible_bit_word)
  finally show ?thesis .
qed

lemma HunterWrite_inner_bits:
  "n \<le> 8 \<Longrightarrow> HunterWrite_inner n b = pulses (map (\<lambda>i. bit b (7 - i)) [0..<n])"
proof (induction n arbitrary: b)
  case 0
  then show ?case by (simp add: pulses_def)
next
  case (Suc n)
  have "HunterWrite_inner (Suc n) b = pulse (bit b 7) @ HunterWrite_inner n (push_bit 1 b)"
    by (rule HunterWrite_inner_step)
  also have "HunterWrite_inner n (push_bit 1 b)
             = pulses (map (\<lambda>i. bit (push_bit 1 b) (7 - i)) [0..<n])"
    using Suc by simp
  also have "map (\<lambda>i. bit (push_bit 1 b) (7 - i)) [0..<n] = map (\<lambda>i. bit b (7 - Suc i)) [0..<n]"
    using Suc.prems by (intro map_cong refl bit_push_1) simp
  also have "pulse (bit b 7) @ pulses (map (\<lambda>i. bit b (7 - Suc i)) [0..<n])
             = pulses (map (\<lambda>i. bit b (7 - i)) (0 # map Suc [0..<n]))"
    by (simp add: pulses_def comp_def)
  also have "0 # map Suc [0..<n] = [0..<Suc n]"
    by (simp only: map_Suc_upt upt_conv_Cons [symmetric] zero_less_Suc)
  finally show ?case .
qed

lemma HunterWrite_inner_8: "HunterWrite_inner 8 b = pulses (byte_bits b)"
proof -
  have "[0..<8] = [0, 1, 2, 3, 4, 5, 6, 7 :: nat]"
    by (simp add: upt_rec)
  then show ?thesis
    by (simp add: HunterWrite_inner_bits byte_bits_def)
qed

lemma HunterWrite_bytes_pulses: "HunterWrite_bytes buffer = pulses (frame_bits buffer)"
  by (induction buffer) (simp_all add: HunterWrite_inner_8 pulses_def frame_bits_def)

lemma HunterWrite_as_pulses:
  "HunterWrite buffer extrabit = transmission_waveform buffer extrabit"
  by (simp add: HunterWrite_def transmission_waveform_def HunterWrite_bytes_pulses
      HunterHigh_pulse HunterLow_pulse bus_prologue_def drive_ms_def drive_us_def
      HUNTER_PIN_def HUNTER_ONE_def HUNTER_ZERO_def START_INTERVAL_def SHORT_INTERVAL_def)

lemma byte_bits_nth: "k < 8 \<Longrightarrow> byte_bits b ! k = bit b (7 - k)"
proof -
  assume "k < 8"
  then have "k = 0 \<or> k = 1 \<or> k = 2 \<or> k = 3 \<or> k = 4 \<or> k = 5 \<or> k = 6 \<or> k = 7"
    by arith
  then show ?thesis by (auto simp: byte_bits_def)
qed

lemma frame_bit_Cons: "frame_bit (b # bs) (k + 8) = frame_bit bs k"
proof -
  have "(k + 8) div 8 = Suc (k div 8)" "(k + 8) mod 8 = k mod 8" by simp_all
  then show ?thesis by (simp only: frame_bit_def nth_Cons_Suc)
qed

lemma frame_bits_nth:
  "k < 8 * length buffer \<Longrightarrow> frame_bits buffer ! k = frame_bit buffer k"
proof (induction buffer arbitrary: k)
  case Nil
  then show ?case by simp
next
  case (Cons b bs)
  have c: "frame_bits (b # bs) = byte_bits b @ frame_bits bs"
    by (simp add: frame_bits_def)
  have l: "length (byte_bits b) = 8" by (simp add: byte_bits_def)
  show ?case
  proof (cases "k < 8")
    case True
    then show ?thesis by (simp add: c l nth_append byte_bits_nth frame_bit_def)
  next
    case False
    then have k: "k = (k - 8) + 8" by simp
    have "frame_bits (b # bs) ! k = frame_bits bs ! (k - 8)"
      using False by (simp add: c l nth_append)
    also have "\<dots> = frame_bit bs (k - 8)"
      using Cons.prems False by (intro Cons.IH) simp
    also have "\<dots> = frame_bit (b # bs) k"
      by (subst (2) k) (rule frame_bit_Cons [symmetric])
    finally show ?thesis .
  qed
qed

lemma length_frame_bits: "length (frame_bits buffer) = 8 * length buffer"
  by (induction buffer) (simp_all add: frame_bits_def byte_bits_def)

lemma HunterProgram_accepted:
  assumes "1 \<le> num" "num \<le> 4"
  shows "\<exists>f. HunterProgram num = Some (HunterWrite f False) \<and> length f = 7 \<and>
           (\<forall>k. frame_bit f k = (if 31 \<le> k \<and> k < 33 then bit (num - 1) (k - 31)
                                  else frame_bit HunterProgram_template k))"
proof -
  have "unat (31 :: byte) + unat (2 :: byte) \<le> 256"
    "unat (31 :: byte) + unat (2 :: byte) \<le> 8 * length HunterProgram_template"
    by (simp_all add: HunterProgram_template_def)
  from HunterBitfield_bits [OF this, of "num - 1"] obtain f where
    f: "HunterBitfield HunterProgram_template 31 (num - 1) 2 = Some f"
    "length f = 7"
    "\<forall>k. frame_bit f k = (if 31 \<le> k \<and> k < 33 then bit (num - 1) (k - 31)
                           else frame_bit HunterProgram_template k)"
    by (auto simp: HunterProgram_template_def)
  have "\<not> (num < 1 \<or> num > 4)" using assms by (auto simp: not_less)
  then have "HunterProgram num = Some (HunterWrite f False)"
    unfolding HunterProgram_def Let_def by (simp only: f(1) if_False bind.bind_lunit)
  with f(2,3) show ?thesis by blast
qed

section \<open>Properties of the event lists\<close>

lemma pulse_bus: "e \<in> set (pulse b) \<Longrightarrow> is_bus_event e"
  by (cases b) (auto simp: pulse_def drive_us_def HUNTER_PIN_def)

lemma pulses_bus: "e \<in> set (pulses bs) \<Longrightarrow> is_bus_event e"
  by (auto simp: pulses_def dest: pulse_bus)

lemma HunterWrite_bus: "e \<in> set (HunterWrite f x) \<Longrightarrow> is_bus_event e"
  by (auto simp: HunterWrite_as_pulses transmission_waveform_def bus_prologue_def
      drive_ms_def drive_us_def HUNTER_PIN_def dest: pulse_bus pulses_bus)

lemma bus_not_other: "is_bus_event e \<Longrightarrow> \<not> is_display_event e \<and> \<not> is_pump_event e"
  by (cases e) (simp_all add: HUNTER_PIN_def)

lemma HunterWrite_events:
  "list_ex is_bus_event (HunterWrite f x)"
  "filter is_bus_event (HunterWrite f x) = HunterWrite f x"
  "\<not> list_ex is_display_event (HunterWrite f x)"
  "\<not> list_ex is_pump_event (HunterWrite f x)"
proof -
  show "list_ex is_bus_event (HunterWrite f x)"
    by (simp add: HunterWrite_def HUNTER_PIN_def)
  show "filter is_bus_event (HunterWrite f x) = HunterWrite f x"
    by (rule filter_True) (simp add: HunterWrite_bus)
  show "\<not> list_ex is_display_event (HunterWrite f x)"
    "\<not> list_ex is_pump_event (HunterWrite f x)"
    using HunterWrite_bus bus_not_other by (auto simp: list_ex_iff)
qed

lemma HunterStart_log_events:
  "\<not> list_ex is_bus_event (HunterStart_log zone time)"
  "filter is_bus_event (HunterStart_log zone time) = []"
  "\<not> list_ex is_display_event (HunterStart_log zone time)"
  "\<not> list_ex is_pump_event (HunterStart_log zone time)"
  by (simp_all add: HunterStart_log_def)

lemma HunterStart_invalid_zone:
  "zone < 1 \<or> zone > 48 \<Longrightarrow>
   HunterStart zone time
   = Some (HunterStart_log zone time @ [Serial_println [Txt ''invalid zone'']])"
  by (simp add: HunterStart_def)

lemma HunterStart_invalid_time:
  "1 \<le> zone \<Longrightarrow> zone \<le> 48 \<Longrightarrow> time > 240 \<Longrightarrow>
   HunterStart zone time
   = Some (HunterStart_log zone time @ [Serial_println [Txt ''invalid time'']])"
  by (auto simp add: HunterStart_def not_less)

lemma HunterProgram_invalid:
  "num < 1 \<or> num > 4 \<Longrightarrow> HunterProgram num = Some [Serial_println [Txt ''invalid program'']]"
  by (simp add: HunterProgram_def)

lemma transmits_HunterStart:
  "transmits (HunterStart zone time) \<longleftrightarrow> 1 \<le> zone \<and> zone \<le> 48 \<and> time \<le> 240"
proof (cases "1 \<le> zone \<and> zone \<le> 48")
  case False
  then have "zone < 1 \<or> zone > 48" using not_le by blast
  from HunterStart_invalid_zone [OF this, of time] False show ?thesis
    by (auto simp: transmits_def HunterStart_log_events)
next
  case z: True
  show ?thesis
  proof (cases "time \<le> 240")
    case True
    with z obtain f where "HunterStart zone time = Some (HunterStart_log zone time @ HunterWrite f True)"
      using HunterStart_accepted [of zone time] by blast
    with z True show ?thesis by (simp add: transmits_def HunterWrite_events)
  next
    case False
    then have "time > 240" using not_le by blast
    with z HunterStart_invalid_time [of zone time] False show ?thesis
      by (auto simp: transmits_def HunterStart_log_events)
  qed
qed

lemma transmits_HunterProgram:
  "transmits (HunterProgram num) \<longleftrightarrow> 1 \<le> num \<and> num \<le> 4"
proof (cases "1 \<le> num \<and> num \<le> 4")
  case False
  then have "num < 1 \<or> num > 4" using not_le by blast
  from HunterProgram_invalid [OF this] False show ?thesis
    by (auto simp: transmits_def)
next
  case True
  then obtain f where "HunterProgram num = Some (HunterWrite f False)"
    using HunterProgram_accepted [of num] by blast
  with True show ?thesis by (simp add: transmits_def HunterWrite_events)
qed

lemma HunterStart_total:
  "\<exists>tx. HunterStart zone time = Some tx \<and> \<not> list_ex is_display_event tx \<and>
         \<not> list_ex is_pump_event tx"
proof (cases "1 \<le> zone \<and> zone \<le> 48 \<and> time \<le> 240")
  case True
  then obtain f where "HunterStart zone time = Some (HunterStart_log zone time @ HunterWrite f True)"
    using HunterStart_accepted [of zone time] by blast
  then show ?thesis by (simp add: HunterWrite_events HunterStart_log_events)
next
  case False
  then consider "zone < 1 \<or> zone > 48" | "1 \<le> zone" "zone \<le> 48" "time > 240"
    using not_le by blast
  then show ?thesis
    by cases (simp_all add: HunterStart_invalid_zone HunterStart_invalid_time HunterStart_log_events)
qed

lemma HunterProgram_total:
  "\<exists>tx. HunterProgram num = Some tx \<and> \<not> list_ex is_display_event tx \<and>
         \<not> list_ex is_pump_event tx"
proof (cases "1 \<le> num \<and> num \<le> 4")
  case True
  then obtain f where "HunterProgram num = Some (HunterWrite f False)"
    using HunterProgram_accepted [of num] by blast
  then show ?thesis by (simp add: HunterWrite_events)
next
  case False
  then have "num < 1 \<or> num > 4" using not_le by blast
  then show ?thesis by (simp add: HunterProgram_invalid)
qed

lemma HunterStop_trace:
  "\<exists>tx. HunterStart zone 0 = Some tx \<and>
     HunterStop zone
       = Some ([Serial_print [Txt ''HunterStop zone ''], Serial_print [Num (uint zone)],
                Serial_print [Txt '': '']] @ tx) \<and>
     map_option bus_events (HunterStop zone) = map_option bus_events (HunterStart zone 0)"
proof -
  obtain tx where "HunterStart zone 0 = Some tx"
    using HunterStart_total [of zone 0] by blast
  then show ?thesis by (simp add: HunterStop_def bus_events_def)
qed

lemma bus_events_HunterStart:
  assumes "1 \<le> zone" "zone \<le> 48" "time \<le> 240"
  shows "\<exists>f. HunterStart_fields zone time HunterStart_template = Some f \<and>
           map_option bus_events (HunterStart zone time) = Some (HunterWrite f True)"
proof -
  obtain f where "HunterStart_fields zone time HunterStart_template = Some f"
    "HunterStart zone time = Some (HunterStart_log zone time @ HunterWrite f True)"
    using HunterStart_accepted [OF assms] by blast
  then show ?thesis
    by (simp add: bus_events_def HunterStart_log_events HunterWrite_events)
qed

lemma HunterStart_fields_5_0:
  "HunterStart_fields 5 0 HunterStart_template
   = Some [0xff, 0x20, 0x00, 0x70, 0x13, 0x80, 0x0a, 0x04, 0x50, 0x05, 0x81, 0x2c, 0x01, 0xb9, 0x3f]"
  by (simp add: HunterStart_fields_def HunterStart_template_def HunterBitfield.simps)

section \<open>Properties of the facade\<close>

lemma switchPump_events:
  "\<not> list_ex is_bus_event (switchPump this onOff)"
  "filter is_bus_event (switchPump this onOff) = []"
  "\<not> list_ex is_display_event (switchPump this onOff)"
  by (simp_all add: switchPump_def HUNTER_PIN_def)

lemma startZone_trace:
  "\<exists>tx. HunterStart (word_of_int zone) (word_of_int time) = Some tx \<and>
     startZone this zone time
       = Some ([Serial_println [Txt ''Watering zone '', Num zone, Txt '' -> '', Num time,
                                Txt '' min'']]
               @ (if oled this
                  then [Oled_updateAction [Txt ''Watering zone '', Num zone, Txt '' -> '',
                                           Num time, Txt '' min''],
                        Oled_updateHunterInfo zone time 0]
                  else [])
               @ switchPump this (time \<noteq> 0) @ tx) \<and>
     \<not> list_ex is_display_event tx \<and> \<not> list_ex is_pump_event tx"
proof -
  obtain tx where "HunterStart (word_of_int zone) (word_of_int time) = Some tx"
    "\<not> list_ex is_display_event tx" "\<not> list_ex is_pump_event tx"
    using HunterStart_total by blast
  then show ?thesis by (simp add: startZone_def Let_def)
qed

lemma startProgram_trace:
  "\<exists>tx. HunterProgram (word_of_int programID) = Some tx \<and>
     startProgram this programID
       = Some ([Serial_println [Txt ''Watering prog '', Num programID, Txt '' ...'']]
               @ (if oled this
                  then [Oled_updateAction [Txt ''Watering prog '', Num programID, Txt '' ...''],
                        Oled_updateHunterInfo 0 0 programID]
                  else [])
               @ tx) \<and>
     \<not> list_ex is_display_event tx \<and> \<not> list_ex is_pump_event tx"
proof -
  obtain tx where "HunterProgram (word_of_int programID) = Some tx"
    "\<not> list_ex is_display_event tx" "\<not> list_ex is_pump_event tx"
    using HunterProgram_total by blast
  then show ?thesis by (simp add: startProgram_def Let_def)
qed

lemma bus_events_startZone:
  "map_option bus_events (startZone this zone time)
   = map_option bus_events (HunterStart (word_of_int zone) (word_of_int time))"
  using startZone_trace [of zone time this]
  by (auto simp: bus_events_def switchPump_events)

lemma bus_events_startProgram:
  "map_option bus_events (startProgram this programID)
   = map_option bus_events (HunterProgram (word_of_int programID))"
  using startProgram_trace [of programID this]
  by (auto simp: bus_events_def)

lemma transmits_bus_events: "transmits r \<longleftrightarrow> (\<exists>es. map_option bus_events r = Some es \<and> es \<noteq> [])"
  by (cases r) (auto simp: transmits_def bus_events_def list_ex_iff filter_empty_conv)

lemma transmits_startZone:
  "transmits (startZone this zone time)
   = transmits (HunterStart (word_of_int zone) (word_of_int time))"
  by (simp add: transmits_bus_events bus_events_startZone)

lemma transmits_startProgram:
  "transmits (startProgram this programID) = transmits (HunterProgram (word_of_int programID))"
  by (simp add: transmits_bus_events bus_events_startProgram)

lemma byte_of_int_le:
  "(word_of_int z :: byte) \<le> 48 \<longleftrightarrow> z mod 256 \<le> 48"
  "(word_of_int z :: byte) \<le> 240 \<longleftrightarrow> z mod 256 \<le> 240"
  "(word_of_int z :: byte) \<le> 4 \<longleftrightarrow> z mod 256 \<le> 4"
  "(1 :: byte) \<le> word_of_int z \<longleftrightarrow> 1 \<le> z mod 256"
  by (simp_all add: word_le_def uint_word_of_int take_bit_eq_mod)

lemma byte_of_int_mod: "(word_of_int (z mod 256) :: byte) = word_of_int z"
  by (simp add: word_of_int_eq_iff take_bit_eq_mod)

lemma byte_wraps: "(256 :: byte) = 0" "(260 :: byte) = 4" "(- 16 :: byte) = 240"
  by simp_all

lemma display_precedes_bus_append:
  "\<not> list_ex is_display_event es \<Longrightarrow> display_precedes_bus (es @ fs) = display_precedes_bus fs"
  by (induction es) simp_all

lemma display_precedes_bus_none:
  "\<not> list_ex is_display_event es \<Longrightarrow> \<not> display_precedes_bus es"
  by (induction es) simp_all

lemma display_precedes_bus_startZone:
  assumes "oled this"
  shows "map_option display_precedes_bus (startZone this zone time)
         = Some (transmits (startZone this zone time))"
proof -
  obtain tx where tx: "HunterStart (word_of_int zone) (word_of_int time) = Some tx"
    and z: "startZone this zone time
              = Some ([Serial_println [Txt ''Watering zone '', Num zone, Txt '' -> '', Num time,
                                       Txt '' min''],
                       Oled_updateAction [Txt ''Watering zone '', Num zone, Txt '' -> '',
                                          Num time, Txt '' min''],
                       Oled_updateHunterInfo zone time 0]
                      @ switchPump this (time \<noteq> 0) @ tx)"
    and nd: "\<not> list_ex is_display_event tx"
    using startZone_trace [of zone time this] assms by auto
  have nd': "\<not> list_ex is_display_event (switchPump this (time \<noteq> 0) @ tx)"
    using nd by (simp add: switchPump_events)
  have "display_precedes_bus
          ([Serial_println [Txt ''Watering zone '', Num zone, Txt '' -> '', Num time, Txt '' min''],
            Oled_updateAction [Txt ''Watering zone '', Num zone, Txt '' -> '', Num time,
                               Txt '' min''],
            Oled_updateHunterInfo zone time 0] @ switchPump this (time \<noteq> 0) @ tx)
        = list_ex is_bus_event tx"
    using nd' display_precedes_bus_none [OF nd']
    by (auto simp add: switchPump_events)
  moreover have "transmits (startZone this zone time) = list_ex is_bus_event tx"
    by (simp only: transmits_startZone tx) (simp add: transmits_def)
  ultimately show ?thesis
    by (simp only: z option.map)
qed

lemma display_precedes_bus_startProgram:
  assumes "oled this"
  shows "map_option display_precedes_bus (startProgram this programID)
         = Some (transmits (startProgram this programID))"
proof -
  obtain px where px: "HunterProgram (word_of_int programID) = Some px"
    and p: "startProgram this programID
              = Some ([Serial_println [Txt ''Watering prog '', Num programID, Txt '' ...''],
                       Oled_updateAction [Txt ''Watering prog '', Num programID, Txt '' ...''],
                       Oled_updateHunterInfo 0 0 programID]
                      @ px)"
    and npd: "\<not> list_ex is_display_event px"
    using startProgram_trace [of programID this] assms by auto
  have "display_precedes_bus
          ([Serial_println [Txt ''Watering prog '', Num programID, Txt '' ...''],
            Oled_updateAction [Txt ''Watering prog '', Num programID, Txt '' ...''],
            Oled_updateHunterInfo 0 0 programID] @ px)
        = list_ex is_bus_event px"
    using display_precedes_bus_none [OF npd] by auto
  moreover have "transmits (startProgram this programID) = list_ex is_bus_event px"
    by (simp only: transmits_startProgram px) (simp add: transmits_def)
  ultimately show ?thesis
    by (simp only: p option.map)
qed

section \<open>Claims about the bit frame builder\<close>

text \<open>
  Claim C7, as the code has it.  The position counter of \<open>HunterBitfield\<close> is a
  \<open>byte\<close>.  For every buffer, position, value and width with
  \<open>pos + width \<le> 8 * length\<close> and \<open>pos + width \<le> 256\<close>, the call stays inside the
  buffer, keeps its length, sets offset \<open>pos + i\<close> (offsets counted from the most
  significant bit of the first byte, across byte boundaries) to bit \<open>i\<close> of the value for
  every \<open>i < width\<close>, so that the field read back is the low \<open>width\<close> bits of the
  value, and leaves every bit outside \<open>[pos, pos + width)\<close> as it was.
\<close>

theorem HunterBitfield_writes_field:
  assumes "unat pos + unat len \<le> 8 * length bits" and "unat pos + unat len \<le> 256"
  shows "\<exists>bits'. HunterBitfield bits pos val len = Some bits' \<and> length bits' = length bits \<and>
           decodeField bits' (unat pos) (unat len) = unat val mod 2 ^ unat len \<and>
           (\<forall>k < 8 * length bits.
              frame_bit bits' k =
                (if unat pos \<le> k \<and> k < unat pos + unat len then bit val (k - unat pos)
                 else frame_bit bits k))"
proof -
  obtain bits' where r: "HunterBitfield bits pos val len = Some bits'"
    and l: "length bits' = length bits"
    and fb: "\<And>k. frame_bit bits' k =
                (if unat pos \<le> k \<and> k < unat pos + unat len then bit val (k - unat pos)
                 else frame_bit bits k)"
    using HunterBitfield_bits [OF assms(2,1), of val] by blast
  have "decodeField bits' (unat pos) (unat len) = unat val mod 2 ^ unat len"
    by (rule decodeField_word) (simp add: fb)
  with r l fb show ?thesis by blast
qed

theorem HunterBitfield_writes_field_witness:
  "unat (9 :: byte) + unat (2 :: byte) \<le> 8 * length HunterProgram_template \<and>
   unat (9 :: byte) + unat (2 :: byte) \<le> 256 \<and>
   (\<exists>bits'. HunterBitfield HunterProgram_template 9 1 2 = Some bits' \<and>
      length bits' = 7 \<and> decodeField bits' 9 2 = 1 \<and>
      frame_bit bits' 9 \<and> \<not> frame_bit bits' 10 \<and>
      frame_bit bits' 11 = frame_bit HunterProgram_template 11)"
proof -
  have pre: "unat (9 :: byte) + unat (2 :: byte) \<le> 8 * length HunterProgram_template"
    "unat (9 :: byte) + unat (2 :: byte) \<le> 256"
    by (simp_all add: HunterProgram_template_def)
  have l: "length HunterProgram_template = 7" by (simp add: HunterProgram_template_def)
  from HunterBitfield_writes_field [OF pre, of 1] pre l show ?thesis
    by (auto simp: bit_1_iff)
qed

text \<open>
  Without the bound 256 the statement of C7 fails: on a buffer of 33 zero bytes (264 bits),
  writing the value 3 with width 2 at position 255 satisfies \<open>pos + width \<le> 8 * length\<close>,
  but after offset 255 the counter wraps to 0.  Offset 0, outside \<open>[255, 257)\<close>, is
  changed, and offset 256, which should receive bit 1 of the value, is not written.
\<close>

theorem HunterBitfield_wrap_counterexample:
  "unat (255 :: byte) + unat (2 :: byte)
     \<le> 8 * length ([0, 0, 0, 0, 0, 0, 0, 0, 0, 0, 0, 0, 0, 0, 0, 0, 0,
        0, 0, 0, 0, 0, 0, 0, 0, 0, 0, 0, 0, 0, 0, 0, 0] :: byte list) \<and>
   HunterBitfield
       [0, 0, 0, 0, 0, 0, 0, 0, 0, 0, 0, 0, 0, 0, 0, 0, 0,
        0, 0, 0, 0, 0, 0, 0, 0, 0, 0, 0, 0, 0, 0, 0, 0] 255 3 2
     = Some [0x80, 0, 0, 0, 0, 0, 0, 0, 0, 0, 0, 0, 0, 0, 0, 0, 0,
        0, 0, 0, 0, 0, 0, 0, 0, 0, 0, 0, 0, 0, 0, 0x01, 0] \<and>
   frame_bit
       [0x80, 0, 0, 0, 0, 0, 0, 0, 0, 0, 0, 0, 0, 0, 0, 0, 0,
        0, 0, 0, 0, 0, 0, 0, 0, 0, 0, 0, 0, 0, 0, 0x01, 0] 0 \<and>
   \<not> frame_bit
       ([0, 0, 0, 0, 0, 0, 0, 0, 0, 0, 0, 0, 0, 0, 0, 0, 0,
        0, 0, 0, 0, 0, 0, 0, 0, 0, 0, 0, 0, 0, 0, 0, 0] :: byte list) 0 \<and>
   \<not> frame_bit
       [0x80, 0, 0, 0, 0, 0, 0, 0, 0, 0, 0, 0, 0, 0, 0, 0, 0,
        0, 0, 0, 0, 0, 0, 0, 0, 0, 0, 0, 0, 0, 0, 0x01, 0] 256 \<and>
   bit (3 :: byte) (256 - 255)"
proof -
  have a: "unat (255 :: byte) + unat (2 :: byte)
     \<le> 8 * length ([0, 0, 0, 0, 0, 0, 0, 0, 0, 0, 0, 0, 0, 0, 0, 0, 0,
        0, 0, 0, 0, 0, 0, 0, 0, 0, 0, 0, 0, 0, 0, 0, 0] :: byte list)"
    by simp
  have b: "HunterBitfield
       [0, 0, 0, 0, 0, 0, 0, 0, 0, 0, 0, 0, 0, 0, 0, 0, 0,
        0, 0, 0, 0, 0, 0, 0, 0, 0, 0, 0, 0, 0, 0, 0, 0] 255 3 2
     = Some [0x80, 0, 0, 0, 0, 0, 0, 0, 0, 0, 0, 0, 0, 0, 0, 0, 0,
        0, 0, 0, 0, 0, 0, 0, 0, 0, 0, 0, 0, 0, 0, 0x01, 0]"
    by (simp add: HunterBitfield.simps)
  have c: "frame_bit
       [0x80, 0, 0, 0, 0, 0, 0, 0, 0, 0, 0, 0, 0, 0, 0, 0, 0,
        0, 0, 0, 0, 0, 0, 0, 0, 0, 0, 0, 0, 0, 0, 0x01, 0] 0"
    "\<not> frame_bit
       ([0, 0, 0, 0, 0, 0, 0, 0, 0, 0, 0, 0, 0, 0, 0, 0, 0,
        0, 0, 0, 0, 0, 0, 0, 0, 0, 0, 0, 0, 0, 0, 0, 0] :: byte list) 0"
    "\<not> frame_bit
       [0x80, 0, 0, 0, 0, 0, 0, 0, 0, 0, 0, 0, 0, 0, 0, 0, 0,
        0, 0, 0, 0, 0, 0, 0, 0, 0, 0, 0, 0, 0, 0, 0x01, 0] 256"
    by (simp_all add: frame_bit_def)
  have d: "bit (3 :: byte) (256 - 255)"
    by (simp add: bit_iff_odd_drop_bit)
  from a b c d show ?thesis by blast
qed

section \<open>Claims about the zone command encoder\<close>

text \<open>
  Claim C1.  For every zone in \<open>[1, 48]\<close> and time in \<open>[0, 240]\<close>, \<open>HunterStart\<close>
  transmits a frame from which the decoder of the documented offsets (zone group at 9,
  zone + 0x17 at 23, zone + 0x23 at 49, zone + 0x2F at 75, duration low nibble at 31 and
  high nibble at 44, zone - 1 at 109) yields exactly the pair (zone, time).
\<close>

theorem HunterStart_decode_roundtrip:
  assumes "1 \<le> zone" "zone \<le> 48" "0 \<le> time" "time \<le> 240"
  shows "\<exists>f. HunterStart zone time = Some (HunterStart_log zone time @ HunterWrite f True) \<and>
             decodeZoneFrame f = Some (unat zone, unat time)"
proof -
  obtain f where f: "HunterStart zone time = Some (HunterStart_log zone time @ HunterWrite f True)"
    and fb: "\<And>k. frame_bit f k = HunterStart_layout zone time k"
    using HunterStart_accepted [OF assms(1,2,4)] by blast
  note v = valid_zone_values [OF assms(1,2)]
  note d = decode_layout [of f zone time, OF fb]
  have t: "16 * (unat time div 16) + unat time mod 16 = unat time" by simp
  have "decodeZoneFrame f = Some (unat zone, unat time)"
    unfolding decodeZoneFrame_def Let_def d time_nibbles v
    using v(5,6) t by (simp split: if_splits)
  with f show ?thesis by blast
qed

theorem HunterStart_decode_roundtrip_witness:
  "(1 :: byte) \<le> 13 \<and> (13 :: byte) \<le> 48 \<and> (0 :: byte) \<le> 30 \<and> (30 :: byte) \<le> 240 \<and>
   (\<exists>f. HunterStart 13 30 = Some (HunterStart_log 13 30 @ HunterWrite f True) \<and>
        decodeZoneFrame f = Some (13, 30))"
  using HunterStart_decode_roundtrip [of 13 30] by simp

text \<open>
  Claim C2.  For every zone in \<open>[1, 48]\<close> and time in \<open>[0, 240]\<close>, the frame that
  \<open>HunterStart\<close> transmits has the length of the 15-byte template and carries: the
  2-bit group selector at offset 9 (1 if zone > 12, else 2); zone + 0x17 in 7 bits at 23
  and 36; zone + 0x23 at 49 and 62; zone + 0x2F at 75 and 88; the low nibble of the
  duration at 31, 57 and 83 and its high nibble at 44, 70 and 96; the low four bits of
  zone - 1 at 109; and the bits of the template at every offset outside these fields.
  For zone 13 and time 30 the frame is computed explicitly; its fields are read in the
  witness below (group 1, 0x24, 0x30, 0x3C, nibbles 0xE and 0x1, and 0xC at 109).
\<close>

theorem HunterStart_writes_fields:
  assumes "1 \<le> zone" "zone \<le> 48" "0 \<le> time" "time \<le> 240"
  shows "(\<exists>f. HunterStart zone time = Some (HunterStart_log zone time @ HunterWrite f True) \<and>
             length f = length HunterStart_template \<and> length f = 15 \<and>
             decodeField f 9 2 = (if zone > 12 then 1 else 2) \<and>
             decodeField f 23 7 = unat zone + 0x17 \<and> decodeField f 36 7 = unat zone + 0x17 \<and>
             decodeField f 49 7 = unat zone + 0x23 \<and> decodeField f 62 7 = unat zone + 0x23 \<and>
             decodeField f 75 7 = unat zone + 0x2F \<and> decodeField f 88 7 = unat zone + 0x2F \<and>
             decodeField f 31 4 = unat time mod 16 \<and> decodeField f 57 4 = unat time mod 16 \<and>
             decodeField f 83 4 = unat time mod 16 \<and>
             decodeField f 44 4 = unat time div 16 \<and> decodeField f 70 4 = unat time div 16 \<and>
             decodeField f 96 4 = unat time div 16 \<and>
             decodeField f 109 4 = (unat zone - 1) mod 16 \<and>
             (\<forall>k < 120. \<not> in_zone_field k \<longrightarrow>
                frame_bit f k = frame_bit HunterStart_template k))
         \<and> HunterStart 13 30
             = Some (HunterStart_log 13 30 @
                 HunterWrite [0xff, 0x40, 0x00, 0x48, 0xf2, 0x48, 0x06, 0x3c, 0x32, 0x07, 0x8f,
                              0x3c, 0x81, 0xb9, 0xbf] True)"
proof
  obtain f where f: "HunterStart zone time = Some (HunterStart_log zone time @ HunterWrite f True)"
    and lf: "length f = 15"
    and fb: "\<And>k. frame_bit f k = HunterStart_layout zone time k"
    using HunterStart_accepted [OF assms(1,2,4)] by blast
  note v = valid_zone_values [OF assms(1,2)]
  note d = decode_layout [of f zone time, OF fb]
  have rest: "\<forall>k < 120. \<not> in_zone_field k \<longrightarrow> frame_bit f k = frame_bit HunterStart_template k"
    by (simp add: fb HunterStart_layout_rest)
  have lt: "length f = length HunterStart_template"
    using lf by (simp add: HunterStart_template_def)
  have g: "decodeField f 9 2 = (if zone > 12 then 1 else 2)"
    unfolding d by simp
  have z: "decodeField f 23 7 = unat zone + 0x17" "decodeField f 36 7 = unat zone + 0x17"
    "decodeField f 49 7 = unat zone + 0x23" "decodeField f 62 7 = unat zone + 0x23"
    "decodeField f 75 7 = unat zone + 0x2F" "decodeField f 88 7 = unat zone + 0x2F"
    "decodeField f 109 4 = (unat zone - 1) mod 16"
    unfolding d v using v(6) by simp_all
  have t: "decodeField f 31 4 = unat time mod 16" "decodeField f 57 4 = unat time mod 16"
    "decodeField f 83 4 = unat time mod 16"
    "decodeField f 44 4 = unat time div 16" "decodeField f 70 4 = unat time div 16"
    "decodeField f 96 4 = unat time div 16"
    unfolding d time_nibbles by simp_all
  show "\<exists>f. HunterStart zone time = Some (HunterStart_log zone time @ HunterWrite f True) \<and>
             length f = length HunterStart_template \<and> length f = 15 \<and>
             decodeField f 9 2 = (if zone > 12 then 1 else 2) \<and>
             decodeField f 23 7 = unat zone + 0x17 \<and> decodeField f 36 7 = unat zone + 0x17 \<and>
             decodeField f 49 7 = unat zone + 0x23 \<and> decodeField f 62 7 = unat zone + 0x23 \<and>
             decodeField f 75 7 = unat zone + 0x2F \<and> decodeField f 88 7 = unat zone + 0x2F \<and>
             decodeField f 31 4 = unat time mod 16 \<and> decodeField f 57 4 = unat time mod 16 \<and>
             decodeField f 83 4 = unat time mod 16 \<and>
             decodeField f 44 4 = unat time div 16 \<and> decodeField f 70 4 = unat time div 16 \<and>
             decodeField f 96 4 = unat time div 16 \<and>
             decodeField f 109 4 = (unat zone - 1) mod 16 \<and>
             (\<forall>k < 120. \<not> in_zone_field k \<longrightarrow>
                frame_bit f k = frame_bit HunterStart_template k)"
    using f lt lf g z t rest by blast
next
  show "HunterStart 13 30
        = Some (HunterStart_log 13 30 @
            HunterWrite [0xff, 0x40, 0x00, 0x48, 0xf2, 0x48, 0x06, 0x3c, 0x32, 0x07, 0x8f,
                         0x3c, 0x81, 0xb9, 0xbf] True)"
    unfolding HunterStart_def Let_def by (simp add: HunterStart_fields_13_30)
qed

theorem HunterStart_writes_fields_witness:
  "(1 :: byte) \<le> 13 \<and> (13 :: byte) \<le> 48 \<and> (0 :: byte) \<le> 30 \<and> (30 :: byte) \<le> 240 \<and>
   (\<exists>f. HunterStart 13 30 = Some (HunterStart_log 13 30 @ HunterWrite f True) \<and>
        length f = 15 \<and>
        decodeField f 9 2 = 1 \<and>
        decodeField f 23 7 = 0x24 \<and> decodeField f 36 7 = 0x24 \<and>
        decodeField f 49 7 = 0x30 \<and> decodeField f 62 7 = 0x30 \<and>
        decodeField f 75 7 = 0x3C \<and> decodeField f 88 7 = 0x3C \<and>
        decodeField f 31 4 = 0xE \<and> decodeField f 57 4 = 0xE \<and> decodeField f 83 4 = 0xE \<and>
        decodeField f 44 4 = 0x1 \<and> decodeField f 70 4 = 0x1 \<and> decodeField f 96 4 = 0x1 \<and>
        decodeField f 109 4 = 0xC \<and>
        frame_bit f 0 = frame_bit HunterStart_template 0)"
proof -
  have pre: "(1 :: byte) \<le> 13" "(13 :: byte) \<le> 48" "(0 :: byte) \<le> 30" "(30 :: byte) \<le> 240"
    by simp_all
  have nz: "\<not> in_zone_field 0" by (simp add: in_zone_field_def)
  from HunterStart_writes_fields [OF pre, THEN conjunct1] nz pre show ?thesis
    by fastforce
qed

section \<open>Claims about the bus transmitter\<close>

text \<open>
  Claim C3.  For every frame buffer and trailing-bit flag, \<open>HunterWrite\<close> produces
  exactly the waveform of the specification, in order: reset (HIGH for 325 ms, LOW for
  65 ms); start (HIGH for 900 us, LOW for 208 us); for each byte of the frame and each of
  its bits, most significant first, a pulse (HIGH 1875 us then LOW 208 us for a 1, HIGH
  208 us then LOW 1875 us for a 0); one more 1 pulse if the flag is set; and a final 0
  pulse.
\<close>

theorem HunterWrite_waveform:
  "HunterWrite buffer extrabit = transmission_waveform buffer extrabit"
  by (simp add: HunterWrite_def transmission_waveform_def HunterWrite_bytes_pulses
      HunterHigh_pulse HunterLow_pulse bus_prologue_def drive_ms_def drive_us_def
      HUNTER_PIN_def HUNTER_ONE_def HUNTER_ZERO_def START_INTERVAL_def SHORT_INTERVAL_def)

text \<open>
  Claim C6.  Every accepted zone command is sent with the trailing bit: after the start
  sequence its events are the pulses of the 15 * 8 frame bits, one 1 pulse and the stop
  0 pulse, 122 pulses in all.  Every accepted program command is sent without it: the
  pulses of the 7 * 8 frame bits and the stop pulse, 57 in all.
\<close>

theorem pulse_counts:
  "(1 \<le> zone \<and> zone \<le> 48 \<and> time \<le> 240 \<longrightarrow>
      (\<exists>f. HunterStart zone time
            = Some (HunterStart_log zone time @ bus_prologue @ pulses (frame_bits f @ [True, False]))
          \<and> length f = 15 \<and> length (frame_bits f @ [True, False]) = 15 * 8 + 1 + 1
          \<and> length (frame_bits f @ [True, False]) = 122)) \<and>
   (1 \<le> num \<and> num \<le> 4 \<longrightarrow>
      (\<exists>f. HunterProgram num = Some (bus_prologue @ pulses (frame_bits f @ [False]))
          \<and> length f = 7 \<and> length (frame_bits f @ [False]) = 7 * 8 + 1
          \<and> length (frame_bits f @ [False]) = 57))"
proof (intro conjI impI)
  have w: "HunterWrite f extrabit
           = bus_prologue @ pulses (frame_bits f @ (if extrabit then [True] else []) @ [False])"
    for f extrabit
    by (simp add: HunterWrite_as_pulses transmission_waveform_def pulses_def)
  {
    assume "1 \<le> zone \<and> zone \<le> 48 \<and> time \<le> 240"
    then obtain f where "HunterStart zone time = Some (HunterStart_log zone time @ HunterWrite f True)"
      "length f = 15"
      using HunterStart_accepted [of zone time] by blast
    then show "\<exists>f. HunterStart zone time
            = Some (HunterStart_log zone time @ bus_prologue @ pulses (frame_bits f @ [True, False]))
          \<and> length f = 15 \<and> length (frame_bits f @ [True, False]) = 15 * 8 + 1 + 1
          \<and> length (frame_bits f @ [True, False]) = 122"
      by (auto simp: w length_frame_bits)
  }
  {
    assume "1 \<le> num \<and> num \<le> 4"
    then obtain f where "HunterProgram num = Some (HunterWrite f False)" "length f = 7"
      using HunterProgram_accepted [of num] by blast
    then show "\<exists>f. HunterProgram num = Some (bus_prologue @ pulses (frame_bits f @ [False]))
          \<and> length f = 7 \<and> length (frame_bits f @ [False]) = 7 * 8 + 1
          \<and> length (frame_bits f @ [False]) = 57"
      by (auto simp: w length_frame_bits)
  }
qed

theorem pulse_counts_witness:
  "(1 :: byte) \<le> 1 \<and> (1 :: byte) \<le> 48 \<and> (1 :: byte) \<le> 240 \<and>
   (\<exists>f. HunterStart 1 1
         = Some (HunterStart_log 1 1 @ bus_prologue @ pulses (frame_bits f @ [True, False]))
       \<and> length (frame_bits f @ [True, False]) = 122) \<and>
   (1 :: byte) \<le> 4 \<and>
   (\<exists>f. HunterProgram 1 = Some (bus_prologue @ pulses (frame_bits f @ [False]))
       \<and> length (frame_bits f @ [False]) = 57)"
  using pulse_counts [of 1 1 1] by auto

section \<open>Claims about rejection and stopping\<close>

text \<open>
  Claim C4.  A zone outside \<open>[1, 48]\<close> (0 and 49 among them) or a time above 240 (241
  among them) makes \<open>HunterStart\<close> return after the report \<open>invalid zone\<close> or
  \<open>invalid time\<close>: no field is written, \<open>HunterWrite\<close> is not called and no bus
  event occurs.  \<open>HunterProgram\<close> rejects every program outside \<open>[1, 4]\<close> (0 and 5
  among them) with the report \<open>invalid program\<close> and no bus event, and transmits a
  7-byte frame for each of 1, 2, 3 and 4.
\<close>

theorem invalid_parameters_rejected:
  "(zone < 1 \<or> zone > 48 \<longrightarrow>
      HunterStart zone time
        = Some (HunterStart_log zone time @ [Serial_println [Txt ''invalid zone'']]) \<and>
      bus_events (HunterStart_log zone time @ [Serial_println [Txt ''invalid zone'']]) = []) \<and>
   (1 \<le> zone \<and> zone \<le> 48 \<and> time > 240 \<longrightarrow>
      HunterStart zone time
        = Some (HunterStart_log zone time @ [Serial_println [Txt ''invalid time'']]) \<and>
      bus_events (HunterStart_log zone time @ [Serial_println [Txt ''invalid time'']]) = []) \<and>
   (zone < 1 \<or> zone > 48 \<or> time > 240 \<longrightarrow>
      (\<exists>es. HunterStart zone time = Some es \<and> bus_events es = []) \<and>
      \<not> transmits (HunterStart zone time)) \<and>
   (num < 1 \<or> num > 4 \<longrightarrow>
      HunterProgram num = Some [Serial_println [Txt ''invalid program'']] \<and>
      bus_events [Serial_println [Txt ''invalid program'']] = [] \<and>
      \<not> transmits (HunterProgram num)) \<and>
   (num = 1 \<or> num = 2 \<or> num = 3 \<or> num = 4 \<longrightarrow>
      (\<exists>f. HunterProgram num = Some (HunterWrite f False) \<and> length f = 7) \<and>
      transmits (HunterProgram num)) \<and>
   \<not> transmits (HunterStart 0 time) \<and> \<not> transmits (HunterStart 49 time) \<and>
   \<not> transmits (HunterStart zone 241) \<and>
   \<not> transmits (HunterProgram 0) \<and> \<not> transmits (HunterProgram 5)"
proof -
  have a: "bus_events (HunterStart_log zone time @ [Serial_println m]) = []" for m
    by (simp add: bus_events_def HunterStart_log_events)
  have z: "HunterStart zone time
           = Some (HunterStart_log zone time @ [Serial_println [Txt ''invalid zone'']])"
    if "zone < 1 \<or> zone > 48"
    using that by (rule HunterStart_invalid_zone)
  have t: "HunterStart zone time
           = Some (HunterStart_log zone time @ [Serial_println [Txt ''invalid time'']])"
    if "1 \<le> zone \<and> zone \<le> 48 \<and> time > 240"
    using that by (simp add: HunterStart_invalid_time)
  have r: "(\<exists>es. HunterStart zone time = Some es \<and> bus_events es = []) \<and>
           \<not> transmits (HunterStart zone time)"
    if "zone < 1 \<or> zone > 48 \<or> time > 240"
  proof -
    have nt: "\<not> transmits (HunterStart zone time)"
      using that by (auto simp: transmits_HunterStart)
    have "\<exists>es. HunterStart zone time = Some es \<and> bus_events es = []"
    proof (cases "zone < 1 \<or> zone > 48")
      case True
      then show ?thesis using z a by blast
    next
      case False
      then have "1 \<le> zone \<and> zone \<le> 48 \<and> time > 240" using that not_le by blast
      then show ?thesis using t a by blast
    qed
    with nt show ?thesis by blast
  qed
  have p: "HunterProgram num = Some [Serial_println [Txt ''invalid program'']] \<and>
      bus_events [Serial_println [Txt ''invalid program'']] = [] \<and>
      \<not> transmits (HunterProgram num)"
    if "num < 1 \<or> num > 4"
  proof -
    have "\<not> transmits (HunterProgram num)"
      using that by (auto simp: transmits_HunterProgram)
    then show ?thesis using HunterProgram_invalid [OF that] by (simp add: bus_events_def)
  qed
  have q: "(\<exists>f. HunterProgram num = Some (HunterWrite f False) \<and> length f = 7) \<and>
      transmits (HunterProgram num)"
    if "num = 1 \<or> num = 2 \<or> num = 3 \<or> num = 4"
  proof -
    from that have "1 \<le> num" "num \<le> 4" by auto
    then have "transmits (HunterProgram num)" by (simp add: transmits_HunterProgram)
    then show ?thesis
      using HunterProgram_accepted [OF \<open>1 \<le> num\<close> \<open>num \<le> 4\<close>] by blast
  qed
  have c: "\<not> transmits (HunterStart 0 time)" "\<not> transmits (HunterStart 49 time)"
    "\<not> transmits (HunterStart zone 241)"
    "\<not> transmits (HunterProgram 0)" "\<not> transmits (HunterProgram 5)"
    by (simp_all add: transmits_HunterStart transmits_HunterProgram)
  from a z t r p q c show ?thesis by blast
qed

theorem invalid_parameters_rejected_witness:
  "((0 :: byte) < 1 \<or> (0 :: byte) > 48) \<and>
   HunterStart 0 10 = Some (HunterStart_log 0 10 @ [Serial_println [Txt ''invalid zone'']]) \<and>
   (1 :: byte) \<le> 7 \<and> (7 :: byte) \<le> 48 \<and> (241 :: byte) > 240 \<and>
   HunterStart 7 241 = Some (HunterStart_log 7 241 @ [Serial_println [Txt ''invalid time'']]) \<and>
   ((5 :: byte) < 1 \<or> (5 :: byte) > 4) \<and>
   HunterProgram 5 = Some [Serial_println [Txt ''invalid program'']] \<and>
   (\<exists>f. HunterProgram 3 = Some (HunterWrite f False) \<and> length f = 7) \<and>
   transmits (HunterProgram 3)"
  using invalid_parameters_rejected [of 0 10 5] invalid_parameters_rejected [of 7 241 3]
  by simp

text \<open>
  Claim C5.  For every zone, \<open>HunterStop\<close> logs its own line and then does what
  \<open>HunterStart\<close> does for that zone with time 0: the bus events of the two are the
  same, and for a valid zone both transmit the one frame that the field writes build
  for time 0.  There is no stop frame of another shape.
\<close>

theorem HunterStop_is_HunterStart_0:
  "(\<exists>tx. HunterStart zone 0 = Some tx \<and>
      HunterStop zone
        = Some ([Serial_print [Txt ''HunterStop zone ''], Serial_print [Num (uint zone)],
                 Serial_print [Txt '': '']] @ tx)) \<and>
   map_option bus_events (HunterStop zone) = map_option bus_events (HunterStart zone 0) \<and>
   (1 \<le> zone \<and> zone \<le> 48 \<longrightarrow>
      (\<exists>f. HunterStart_fields zone 0 HunterStart_template = Some f \<and>
          map_option bus_events (HunterStart zone 0) = Some (HunterWrite f True) \<and>
          map_option bus_events (HunterStop zone) = Some (HunterWrite f True)))"
proof -
  have "\<exists>f. HunterStart_fields zone 0 HunterStart_template = Some f \<and>
          map_option bus_events (HunterStart zone 0) = Some (HunterWrite f True) \<and>
          map_option bus_events (HunterStop zone) = Some (HunterWrite f True)"
    if "1 \<le> zone \<and> zone \<le> 48"
    using that bus_events_HunterStart [of zone 0] HunterStop_trace [of zone] by auto
  then show ?thesis using HunterStop_trace [of zone] by blast
qed

theorem HunterStop_is_HunterStart_0_witness:
  "(1 :: byte) \<le> 5 \<and> (5 :: byte) \<le> 48 \<and>
   map_option bus_events (HunterStart 5 0)
     = Some (HunterWrite [0xff, 0x20, 0x00, 0x70, 0x13, 0x80, 0x0a, 0x04, 0x50, 0x05, 0x81,
                          0x2c, 0x01, 0xb9, 0x3f] True) \<and>
   map_option bus_events (HunterStop 5)
     = Some (HunterWrite [0xff, 0x20, 0x00, 0x70, 0x13, 0x80, 0x0a, 0x04, 0x50, 0x05, 0x81,
                          0x2c, 0x01, 0xb9, 0x3f] True)"
  using HunterStop_is_HunterStart_0 [of 5] by (simp add: HunterStart_fields_5_0)

section \<open>Claims about the controller facade\<close>

text \<open>
  Claim C8, as the code has it.  With a display attached, \<open>startZone\<close> and
  \<open>startProgram\<close> report the status line and the zone/time/program triple to the
  display first, before the command is validated, built or transmitted: the two display
  events directly follow the serial log line, every bus event comes after them, and no
  display event follows.  Whenever the call transmits, a display report precedes the
  transmission.
\<close>

theorem display_report_precedes_transmission:
  assumes "oled this"
  shows "(\<exists>tx. HunterStart (word_of_int zone) (word_of_int time) = Some tx \<and>
            startZone this zone time
              = Some ([Serial_println [Txt ''Watering zone '', Num zone, Txt '' -> '', Num time,
                                       Txt '' min''],
                       Oled_updateAction [Txt ''Watering zone '', Num zone, Txt '' -> '',
                                          Num time, Txt '' min''],
                       Oled_updateHunterInfo zone time 0]
                      @ switchPump this (time \<noteq> 0) @ tx) \<and>
            \<not> list_ex is_bus_event (switchPump this (time \<noteq> 0)) \<and>
            \<not> list_ex is_display_event (switchPump this (time \<noteq> 0) @ tx)) \<and>
         map_option display_precedes_bus (startZone this zone time)
           = Some (transmits (startZone this zone time)) \<and>
         (\<exists>tx. HunterProgram (word_of_int programID) = Some tx \<and>
            startProgram this programID
              = Some ([Serial_println [Txt ''Watering prog '', Num programID, Txt '' ...''],
                       Oled_updateAction [Txt ''Watering prog '', Num programID, Txt '' ...''],
                       Oled_updateHunterInfo 0 0 programID]
                      @ tx) \<and>
            \<not> list_ex is_display_event tx) \<and>
         map_option display_precedes_bus (startProgram this programID)
           = Some (transmits (startProgram this programID))"
proof -
  obtain tx where tx: "HunterStart (word_of_int zone) (word_of_int time) = Some tx"
    and z: "startZone this zone time
              = Some ([Serial_println [Txt ''Watering zone '', Num zone, Txt '' -> '', Num time,
                                       Txt '' min''],
                       Oled_updateAction [Txt ''Watering zone '', Num zone, Txt '' -> '',
                                          Num time, Txt '' min''],
                       Oled_updateHunterInfo zone time 0]
                      @ switchPump this (time \<noteq> 0) @ tx)"
    and nd: "\<not> list_ex is_display_event tx"
    using startZone_trace [of zone time this] assms by auto
  have nd': "\<not> list_ex is_display_event (switchPump this (time \<noteq> 0) @ tx)"
    using nd by (simp add: switchPump_events)
  obtain px where px: "HunterProgram (word_of_int programID) = Some px"
    and p: "startProgram this programID
              = Some ([Serial_println [Txt ''Watering prog '', Num programID, Txt '' ...''],
                       Oled_updateAction [Txt ''Watering prog '', Num programID, Txt '' ...''],
                       Oled_updateHunterInfo 0 0 programID]
                      @ px)"
    and npd: "\<not> list_ex is_display_event px"
    using startProgram_trace [of programID this] assms by auto
  from tx z nd' px p npd switchPump_events(1) [of this "time \<noteq> 0"]
    display_precedes_bus_startZone [OF assms, of zone time]
    display_precedes_bus_startProgram [OF assms, of programID]
  show ?thesis by blast
qed

theorem display_report_precedes_transmission_witness:
  "oled \<lparr>USE_PUMP = False, oled = True\<rparr> \<and>
   map_option display_precedes_bus (startZone \<lparr>USE_PUMP = False, oled = True\<rparr> 1 1)
     = Some (transmits (startZone \<lparr>USE_PUMP = False, oled = True\<rparr> 1 1)) \<and>
   transmits (startZone \<lparr>USE_PUMP = False, oled = True\<rparr> 1 1) \<and>
   (\<exists>tx. HunterProgram 1 = Some tx \<and>
      startProgram \<lparr>USE_PUMP = False, oled = True\<rparr> 1
        = Some ([Serial_println [Txt ''Watering prog '', Num 1, Txt '' ...''],
                 Oled_updateAction [Txt ''Watering prog '', Num 1, Txt '' ...''],
                 Oled_updateHunterInfo 0 0 1] @ tx))"
proof -
  have o: "oled \<lparr>USE_PUMP = False, oled = True\<rparr>" by simp
  have t: "transmits (startZone \<lparr>USE_PUMP = False, oled = True\<rparr> 1 1)"
    by (simp add: transmits_startZone transmits_HunterStart)
  from display_report_precedes_transmission [OF o, of 1 1 1] o t show ?thesis
    by auto
qed

text \<open>
  The statement of C8, that the display report never precedes the transmission, fails
  for \<open>startZone\<close> with zone 13 and time 30 and for \<open>startProgram\<close> with program 2:
  in both runs a display report comes before a bus event.
\<close>

theorem display_before_transmission_counterexample:
  "map_option display_precedes_bus (startZone \<lparr>USE_PUMP = False, oled = True\<rparr> 13 30)
     = Some True \<and>
   map_option display_precedes_bus (startProgram \<lparr>USE_PUMP = False, oled = True\<rparr> 2)
     = Some True"
proof -
  have o: "oled \<lparr>USE_PUMP = False, oled = True\<rparr>" by simp
  have "transmits (startZone \<lparr>USE_PUMP = False, oled = True\<rparr> 13 30)"
    by (simp add: transmits_startZone transmits_HunterStart)
  moreover have "transmits (startProgram \<lparr>USE_PUMP = False, oled = True\<rparr> 2)"
    by (simp add: transmits_startProgram transmits_HunterProgram)
  ultimately show ?thesis
    by (simp only: display_precedes_bus_startZone [OF o] display_precedes_bus_startProgram [OF o])
qed

text \<open>
  Claim C9.  For every call of \<open>startZone\<close> with pump control enabled, exactly one
  write to the pump relay (GPIO 5) occurs, before every event of \<open>HunterStart\<close> and so
  before the transmission: HIGH when the duration argument is nonzero, LOW when it is
  zero.
\<close>

theorem pump_switched_before_transmission:
  assumes "USE_PUMP this"
  shows "\<exists>pre tx. startZone this zone time
                    = Some (pre @ [DigitalWrite 5 (if time \<noteq> 0 then HIGH else LOW)] @ tx) \<and>
           HunterStart (word_of_int zone) (word_of_int time) = Some tx \<and>
           \<not> list_ex is_pump_event pre \<and> \<not> list_ex is_bus_event pre \<and>
           \<not> list_ex is_pump_event tx"
proof -
  obtain tx where tx: "HunterStart (word_of_int zone) (word_of_int time) = Some tx"
    and np: "\<not> list_ex is_pump_event tx"
    using HunterStart_total by blast
  define pre where "pre =
    [Serial_println [Txt ''Watering zone '', Num zone, Txt '' -> '', Num time, Txt '' min'']]
    @ (if oled this
       then [Oled_updateAction [Txt ''Watering zone '', Num zone, Txt '' -> '', Num time,
                                Txt '' min''],
             Oled_updateHunterInfo zone time 0]
       else [])
    @ [Serial_println [Txt (if time \<noteq> 0 then ''Set GPIO5 high.'' else ''Set GPIO5 low.'')]]"
  have "startZone this zone time
        = Some (pre @ [DigitalWrite 5 (if time \<noteq> 0 then HIGH else LOW)] @ tx)"
    using assms tx by (simp add: startZone_def Let_def switchPump_def pre_def)
  moreover have "\<not> list_ex is_pump_event pre" "\<not> list_ex is_bus_event pre"
    by (simp_all add: pre_def)
  ultimately show ?thesis using tx np by blast
qed

theorem pump_switched_before_transmission_witness:
  "USE_PUMP \<lparr>USE_PUMP = True, oled = False\<rparr> \<and>
   (\<exists>pre tx. startZone \<lparr>USE_PUMP = True, oled = False\<rparr> 3 20
               = Some (pre @ [DigitalWrite 5 HIGH] @ tx) \<and>
      HunterStart 3 20 = Some tx \<and> \<not> list_ex is_pump_event pre \<and> \<not> list_ex is_pump_event tx) \<and>
   (\<exists>pre tx. startZone \<lparr>USE_PUMP = True, oled = False\<rparr> 3 0
               = Some (pre @ [DigitalWrite 5 LOW] @ tx) \<and>
      HunterStart 3 0 = Some tx \<and> \<not> list_ex is_pump_event pre \<and> \<not> list_ex is_pump_event tx)"
proof -
  have u: "USE_PUMP \<lparr>USE_PUMP = True, oled = False\<rparr>" by simp
  from pump_switched_before_transmission [OF u, of 3 20]
    pump_switched_before_transmission [OF u, of 3 0] u
  show ?thesis by (simp del: append.simps) blast
qed

text \<open>
  Claim C10.  The facade casts its integer arguments to \<open>byte\<close> before validation, so
  acceptance and the transmitted frame depend on the arguments modulo 256 only:
  \<open>startZone z 256\<close> is accepted for a valid \<open>z\<close> and sent with duration 0,
  \<open>startZone 260 t\<close> is accepted for a valid \<open>t\<close> and sent as zone 4, and a negative
  duration is never caught by the check \<open>time < 0\<close>, which is false for every
  \<open>byte\<close>: it is rejected exactly when its residue exceeds 240 (so -16 is sent as
  240).  The same holds for \<open>startProgram\<close>.
\<close>

theorem facade_truncates_to_8_bits:
  "(transmits (startZone this zone time)
      \<longleftrightarrow> 1 \<le> zone mod 256 \<and> zone mod 256 \<le> 48 \<and> time mod 256 \<le> 240) \<and>
   map_option bus_events (startZone this zone time)
     = map_option bus_events (HunterStart (word_of_int (zone mod 256)) (word_of_int (time mod 256))) \<and>
   (transmits (startProgram this programID)
      \<longleftrightarrow> 1 \<le> programID mod 256 \<and> programID mod 256 \<le> 4) \<and>
   map_option bus_events (startProgram this programID)
     = map_option bus_events (HunterProgram (word_of_int (programID mod 256))) \<and>
   (1 \<le> zone \<and> zone \<le> 48 \<longrightarrow>
      transmits (startZone this zone 256) \<and>
      map_option bus_events (startZone this zone 256)
        = map_option bus_events (HunterStart (word_of_int zone) 0)) \<and>
   (0 \<le> time \<and> time \<le> 240 \<longrightarrow>
      transmits (startZone this 260 time) \<and>
      map_option bus_events (startZone this 260 time)
        = map_option bus_events (HunterStart 4 (word_of_int time))) \<and>
   (time < 0 \<and> 1 \<le> zone mod 256 \<and> zone mod 256 \<le> 48 \<longrightarrow>
      (transmits (startZone this zone time) \<longleftrightarrow> time mod 256 \<le> 240)) \<and>
   \<not> (word_of_int time :: byte) < 0 \<and>
   transmits (startZone this 1 (- 16)) \<and>
   map_option bus_events (startZone this 1 (- 16)) = map_option bus_events (HunterStart 1 240)"
proof -
  have i: "\<not> (word_of_int time :: byte) < 0" by simp
  have a: "transmits (startZone this z t)
      \<longleftrightarrow> 1 \<le> z mod 256 \<and> z mod 256 \<le> 48 \<and> t mod 256 \<le> 240" for z t
    by (simp add: transmits_startZone transmits_HunterStart byte_of_int_le)
  have b: "map_option bus_events (startZone this z t)
     = map_option bus_events (HunterStart (word_of_int (z mod 256)) (word_of_int (t mod 256)))"
    for z t
    by (simp only: bus_events_startZone byte_of_int_mod)
  have c: "transmits (startProgram this programID)
      \<longleftrightarrow> 1 \<le> programID mod 256 \<and> programID mod 256 \<le> 4"
    by (simp add: transmits_startProgram transmits_HunterProgram byte_of_int_le)
  have d: "map_option bus_events (startProgram this programID)
     = map_option bus_events (HunterProgram (word_of_int (programID mod 256)))"
    by (simp only: bus_events_startProgram byte_of_int_mod)
  have e: "transmits (startZone this zone 256) \<and>
      map_option bus_events (startZone this zone 256)
        = map_option bus_events (HunterStart (word_of_int zone) 0)"
    if "1 \<le> zone \<and> zone \<le> 48"
    using that by (simp add: a bus_events_startZone byte_wraps)
  have f: "transmits (startZone this 260 time) \<and>
      map_option bus_events (startZone this 260 time)
        = map_option bus_events (HunterStart 4 (word_of_int time))"
    if "0 \<le> time \<and> time \<le> 240"
    using that by (simp add: a bus_events_startZone byte_wraps)
  have g: "transmits (startZone this zone time) \<longleftrightarrow> time mod 256 \<le> 240"
    if "time < 0 \<and> 1 \<le> zone mod 256 \<and> zone mod 256 \<le> 48"
    using that by (simp add: a)
  have h: "transmits (startZone this 1 (- 16))"
    "map_option bus_events (startZone this 1 (- 16)) = map_option bus_events (HunterStart 1 240)"
    by (simp_all add: a bus_events_startZone byte_wraps)
  from a [of zone time] b [of zone time] c d e f g h i show ?thesis by blast
qed

theorem facade_truncates_to_8_bits_witness:
  "(1 :: int) \<le> 7 \<and> (7 :: int) \<le> 48 \<and>
   transmits (startZone \<lparr>USE_PUMP = False, oled = False\<rparr> 7 256) \<and>
   map_option bus_events (startZone \<lparr>USE_PUMP = False, oled = False\<rparr> 7 256)
     = map_option bus_events (HunterStart 7 0) \<and>
   (0 :: int) \<le> 30 \<and> (30 :: int) \<le> 240 \<and>
   transmits (startZone \<lparr>USE_PUMP = False, oled = False\<rparr> 260 30) \<and>
   map_option bus_events (startZone \<lparr>USE_PUMP = False, oled = False\<rparr> 260 30)
     = map_option bus_events (HunterStart 4 30) \<and>
   (- 1 :: int) < 0 \<and> (1 :: int) \<le> 7 mod 256 \<and> (7 :: int) mod 256 \<le> 48 \<and>
   (- 1 :: int) mod 256 = 255 \<and>
   \<not> transmits (startZone \<lparr>USE_PUMP = False, oled = False\<rparr> 7 (- 1)) \<and>
   transmits (startZone \<lparr>USE_PUMP = False, oled = False\<rparr> 1 (- 16))"
  using facade_truncates_to_8_bits [of "\<lparr>USE_PUMP = False, oled = False\<rparr>" 7 30 1]
    facade_truncates_to_8_bits [of "\<lparr>USE_PUMP = False, oled = False\<rparr>" 7 "- 1" 1]
  by simp

end
